theory Spec2Isabelle
  imports Main "HOL-Library.Word" "HOL-Library.AList"
begin

section \<open>Wire format: the eight-byte header\<close>

text \<open>
  Both programs share the header layout \<^verbatim>\<open>HEADER_FMT = '!BBHI'\<close>: one byte of version,
  one byte of type, a big-endian 16-bit sequence number and a big-endian 32-bit length.
  Python integers are unbounded, so the header fields are \<open>int\<close>; a byte string is a
  list of 8-bit words.
\<close>

type_synonym byte = "8 word"

type_synonym bytes = "byte list"

datatype error =
    StructError      \<comment> \<open>\<^verbatim>\<open>struct.error\<close>: a field out of range for its format code\<close>
  | ValueError       \<comment> \<open>raised by \<^verbatim>\<open>parse_header\<close> on a short buffer\<close>
  | OSError          \<comment> \<open>any failure of a socket or file operation\<close>
  | UnicodeError     \<comment> \<open>a strict codec met data that it cannot convert\<close>
  | EOFError         \<comment> \<open>\<^verbatim>\<open>input()\<close> at the end of the input\<close>

definition VERSION :: int where "VERSION = 1"

definition TYPE_CONNECT :: int where "TYPE_CONNECT = 1"

definition TYPE_MSG :: int where "TYPE_MSG = 2"

definition TYPE_LIST :: int where "TYPE_LIST = 3"

definition TYPE_FILE :: int where "TYPE_FILE = 4"

definition TYPE_ACK :: int where "TYPE_ACK = 5"

definition TYPE_DISCONNECT :: int where "TYPE_DISCONNECT = 6"

definition HEADER_SIZE :: nat where "HEADER_SIZE = 8"

text \<open>Big-endian packing of a non-negative integer into \<open>n\<close> bytes, and its inverse.\<close>

fun pack_be :: "nat \<Rightarrow> int \<Rightarrow> bytes" where
  "pack_be 0 x = []"
| "pack_be (Suc n) x = pack_be n (x div 256) @ [word_of_int x]"

definition unpack_be :: "bytes \<Rightarrow> int" where
  "unpack_be bs = foldl (\<lambda>acc b. acc * 256 + uint b) 0 bs"

text \<open>
  \<^verbatim>\<open>struct.pack\<close> raises \<^verbatim>\<open>struct.error\<close> when an argument does not fit its format
  code: \<^verbatim>\<open>B\<close> takes 0..255, \<^verbatim>\<open>H\<close> 0..65535 and \<^verbatim>\<open>I\<close> 0..4294967295.
\<close>

definition build_header :: "int \<Rightarrow> int \<Rightarrow> int \<Rightarrow> int \<Rightarrow> error + bytes" where
  "build_header version ty seq len =
     (if 0 \<le> version \<and> version \<le> 255 \<and> 0 \<le> ty \<and> ty \<le> 255
         \<and> 0 \<le> seq \<and> seq \<le> 65535 \<and> 0 \<le> len \<and> len \<le> 4294967295
      then Inr (pack_be 1 version @ pack_be 1 ty @ pack_be 2 seq @ pack_be 4 len)
      else Inl StructError)"

definition parse_header :: "bytes \<Rightarrow> error + (int \<times> int \<times> int \<times> int)" where
  "parse_header data =
     (if length data < HEADER_SIZE then Inl ValueError
      else let d = take HEADER_SIZE data
           in Inr (unpack_be (take 1 d), unpack_be (take 1 (drop 1 d)),
                   unpack_be (take 2 (drop 2 d)), unpack_be (take 4 (drop 4 d))))"

section \<open>Text: Python strings and the UTF-8 codec\<close>

text \<open>
  A Python \<^verbatim>\<open>str\<close> is a sequence of code points. The programs turn bytes into text with
  \<^verbatim>\<open>bytes.decode('utf-8', errors='ignore')\<close> and text into bytes with
  \<^verbatim>\<open>str.encode('utf-8')\<close>; both belong to the interpreter, and are written out here
  after CPython's decoder: an ill-formed sequence is reported with the number of bytes that
  form it, the strict mode raises there and the \<^verbatim>\<open>ignore\<close> mode skips those bytes.
\<close>

type_synonym str = "nat list"

definition lit :: "string \<Rightarrow> str" where
  "lit s = map of_char s"

definition bytes_lit :: "string \<Rightarrow> bytes" where
  "bytes_lit s = map (\<lambda>c. of_nat (of_char c)) s"

datatype errors_mode = Strict | Ignore

datatype utf8_step =
    Char nat nat   \<comment> \<open>a code point, and the number of bytes that encode it\<close>
  | Bad nat        \<comment> \<open>an ill-formed sequence of that many bytes\<close>

definition is_cont :: "nat \<Rightarrow> bool" where
  "is_cont b = (128 \<le> b \<and> b < 192)"

definition utf8_next :: "nat \<Rightarrow> nat list \<Rightarrow> utf8_step" where
  "utf8_next ch rest =
     (if ch < 128 then Char ch 1
      else if ch < 224 then
        (if ch < 194 then Bad 1
         else (case rest of
                 [] \<Rightarrow> Bad 1
               | ch2 # _ \<Rightarrow>
                   (if \<not> is_cont ch2 then Bad 1
                    else Char ((ch mod 32) * 64 + ch2 mod 64) 2)))
      else if ch < 240 then
        (case rest of
           [] \<Rightarrow> Bad 1
         | ch2 # rest2 \<Rightarrow>
             (if \<not> is_cont ch2 \<or> (if ch2 < 160 then ch = 224 else ch = 237) then Bad 1
              else (case rest2 of
                      [] \<Rightarrow> Bad 2
                    | ch3 # _ \<Rightarrow>
                        (if \<not> is_cont ch3 then Bad 2
                         else Char (((ch mod 16) * 64 + ch2 mod 64) * 64 + ch3 mod 64) 3))))
      else if ch < 245 then
        (case rest of
           [] \<Rightarrow> Bad 1
         | ch2 # rest2 \<Rightarrow>
             (if \<not> is_cont ch2 \<or> (if ch2 < 144 then ch = 240 else ch = 244) then Bad 1
              else (case rest2 of
                      [] \<Rightarrow> Bad 2
                    | ch3 # rest3 \<Rightarrow>
                        (if \<not> is_cont ch3 then Bad 2
                         else (case rest3 of
                                 [] \<Rightarrow> Bad 3
                               | ch4 # _ \<Rightarrow>
                                   (if \<not> is_cont ch4 then Bad 3
                                    else Char ((((ch mod 8) * 64 + ch2 mod 64) * 64
                                                 + ch3 mod 64) * 64 + ch4 mod 64) 4))))))
      else Bad 1)"

fun utf8_dec :: "errors_mode \<Rightarrow> nat list \<Rightarrow> error + str" where
  "utf8_dec m [] = Inr []"
| "utf8_dec m (ch # rest) =
     (case utf8_next ch rest of
        Char c k \<Rightarrow>
          (case utf8_dec m (drop (k - 1) rest) of
             Inl e \<Rightarrow> Inl e
           | Inr s \<Rightarrow> Inr (c # s))
      | Bad k \<Rightarrow>
          (case m of
             Strict \<Rightarrow> Inl UnicodeError
           | Ignore \<Rightarrow> utf8_dec m (drop (k - 1) rest)))"

definition utf8_decode :: "errors_mode \<Rightarrow> bytes \<Rightarrow> error + str" where
  "utf8_decode m data = utf8_dec m (map unat data)"

text \<open>
  The encoder is strict: a surrogate cannot be encoded. A Python string holds no code
  point above \<open>0x10FFFF\<close>; the model answers such a number with the same error.
\<close>

definition utf8_encode_cp :: "nat \<Rightarrow> error + nat list" where
  "utf8_encode_cp c =
     (if c < 128 then Inr [c]
      else if c < 2048 then Inr [192 + c div 64, 128 + c mod 64]
      else if c < 65536 then
        (if 55296 \<le> c \<and> c < 57344 then Inl UnicodeError
         else Inr [224 + c div 4096, 128 + (c div 64) mod 64, 128 + c mod 64])
      else if c < 1114112 then
        Inr [240 + c div 262144, 128 + (c div 4096) mod 64, 128 + (c div 64) mod 64,
             128 + c mod 64]
      else Inl UnicodeError)"

fun utf8_encode :: "str \<Rightarrow> error + bytes" where
  "utf8_encode [] = Inr []"
| "utf8_encode (c # cs) =
     (case utf8_encode_cp c of
        Inl e \<Rightarrow> Inl e
      | Inr bs \<Rightarrow>
          (case utf8_encode cs of
             Inl e \<Rightarrow> Inl e
           | Inr rest \<Rightarrow> Inr (map of_nat bs @ rest)))"

text \<open>\<^verbatim>\<open>sep.join(xs)\<close>.\<close>

fun join :: "str \<Rightarrow> str list \<Rightarrow> str" where
  "join sep [] = []"
| "join sep [x] = x"
| "join sep (x # y # ys) = x @ sep @ join sep (y # ys)"

text \<open>Decimal digits of a number, for \<^verbatim>\<open>str(n)\<close> and the f-strings.\<close>

fun digits :: "nat \<Rightarrow> str" where
  "digits n = (if n < 10 then [48 + n] else digits (n div 10) @ [48 + n mod 10])"

declare digits.simps [simp del]

definition str_int :: "int \<Rightarrow> str" where
  "str_int i = (if i < 0 then 45 # digits (nat (- i)) else digits (nat i))"

text \<open>
  A peer address is the pair \<^verbatim>\<open>(ip, port)\<close> that \<^verbatim>\<open>accept\<close> returns; \<^verbatim>\<open>str(addr)\<close>
  prints it as a tuple, the host in quotes.
\<close>

type_synonym addr = "str \<times> int"

definition str_addr :: "addr \<Rightarrow> str" where
  "str_addr a = lit ''('' @ [39] @ fst a @ [39] @ lit '', '' @ str_int (snd a) @ lit '')''"

section \<open>The server's world\<close>

text \<open>
  A handler thread works on the process-wide dictionary \<^verbatim>\<open>clients\<close> (socket to
  \<^verbatim>\<open>{'name', 'addr'}\<close>, in insertion order), on its own socket and on the sockets of
  the other peers. The world holds the dictionary, what each socket still has to deliver
  to \<^verbatim>\<open>recv\<close>, which sockets refuse a write, which are closed, which file names cannot
  be opened, the clock, and the trace of every action the handler takes, in program order.
\<close>

type_synonym sock = nat

record client_info =
  info_name :: str
  info_addr :: addr

datatype rx_item =
    Seg bytes   \<comment> \<open>bytes that arrived together\<close>
  | Fault       \<comment> \<open>the next \<^verbatim>\<open>recv\<close> raises (a reset connection)\<close>

datatype level = DEBUG | INFO | WARNING | ERROR

datatype event =
    Acquire | Release                \<comment> \<open>entering and leaving \<^verbatim>\<open>with clients_lock\<close>\<close>
  | RegRead                          \<comment> \<open>a read of \<^verbatim>\<open>clients\<close>\<close>
  | RegStore sock                    \<comment> \<open>\<^verbatim>\<open>clients[conn] = ...\<close>\<close>
  | RegDelete sock                   \<comment> \<open>\<^verbatim>\<open>del clients[conn]\<close>\<close>
  | Recv sock nat                    \<comment> \<open>\<^verbatim>\<open>sock.recv(n)\<close>\<close>
  | Send sock bytes bool             \<comment> \<open>\<^verbatim>\<open>sock.sendall(data)\<close>, and whether it returned\<close>
  | Close sock                       \<comment> \<open>\<^verbatim>\<open>sock.close()\<close>\<close>
  | FileAppend str bytes bool        \<comment> \<open>appending to a file, and whether it worked\<close>
  | Log level                        \<comment> \<open>a call of the \<^verbatim>\<open>logging\<close> module\<close>

record world =
  clients :: "(sock \<times> client_info) list"
  rx :: "sock \<Rightarrow> rx_item list"
  tx_down :: "sock set"
  closed_socks :: "sock set"
  fs_fail :: "str set"
  clock :: int
  trace :: "event list"

definition emit :: "event \<Rightarrow> world \<Rightarrow> world" where
  "emit ev w = w\<lparr>trace := trace w @ [ev]\<rparr>"

definition logging :: "level \<Rightarrow> world \<Rightarrow> world" where
  "logging lvl w = emit (Log lvl) w"

text \<open>
  \<^verbatim>\<open>sock.recv(n)\<close> returns at most \<open>n\<close> of the bytes that have arrived, the empty
  byte string once the peer has closed the stream, or raises.
\<close>

fun recv_items :: "nat \<Rightarrow> rx_item list \<Rightarrow> (error + bytes) \<times> rx_item list" where
  "recv_items n [] = (Inr [], [])"
| "recv_items n (Fault # rest) = (Inl OSError, rest)"
| "recv_items n (Seg bs # rest) =
     (if bs = [] then recv_items n rest
      else if length bs \<le> n then (Inr bs, rest)
      else (Inr (take n bs), Seg (drop n bs) # rest))"

definition sock_recv :: "sock \<Rightarrow> nat \<Rightarrow> world \<Rightarrow> (error + bytes) \<times> world" where
  "sock_recv s n w =
     (case recv_items n (rx w s) of
        (r, rest) \<Rightarrow> (r, emit (Recv s n) (w\<lparr>rx := (rx w)(s := rest)\<rparr>)))"

definition sock_sendall :: "sock \<Rightarrow> bytes \<Rightarrow> world \<Rightarrow> (error + unit) \<times> world" where
  "sock_sendall s data w =
     (if s \<in> tx_down w \<or> s \<in> closed_socks w then (Inl OSError, emit (Send s data False) w)
      else (Inr (), emit (Send s data True) w))"

definition sock_close :: "sock \<Rightarrow> world \<Rightarrow> world" where
  "sock_close s w = emit (Close s) (w\<lparr>closed_socks := insert s (closed_socks w)\<rparr>)"

definition file_append :: "str \<Rightarrow> bytes \<Rightarrow> world \<Rightarrow> (error + unit) \<times> world" where
  "file_append fname data w =
     (if fname \<in> fs_fail w then (Inl OSError, emit (FileAppend fname data False) w)
      else (Inr (), emit (FileAppend fname data True) w))"

section \<open>The server\<close>

text \<open>\<^verbatim>\<open>recv_all(sock, n)\<close>: \<open>None\<close> when the stream closes before \<open>n\<close> bytes came.\<close>

function recv_all_loop :: "sock \<Rightarrow> nat \<Rightarrow> bytes \<Rightarrow> world \<Rightarrow> (error + bytes option) \<times> world" where
  "recv_all_loop s n data w =
     (if length data < n then
        (case sock_recv s (n - length data) w of
           (Inl e, w1) \<Rightarrow> (Inl e, w1)
         | (Inr chunk, w1) \<Rightarrow>
             (if chunk = [] then (Inr None, w1)
              else recv_all_loop s n (data @ chunk) w1))
      else (Inr (Some data), w))"
  by pat_completeness auto

termination
  by (relation "measure (\<lambda>(s, n, data, w). n - length data)") (auto simp: neq_Nil_conv)

declare recv_all_loop.simps [simp del]

definition recv_all :: "sock \<Rightarrow> nat \<Rightarrow> world \<Rightarrow> (error + bytes option) \<times> world" where
  "recv_all s n w = recv_all_loop s n [] w"

definition send_ack :: "sock \<Rightarrow> int \<Rightarrow> bytes \<Rightarrow> world \<Rightarrow> (error + unit) \<times> world" where
  "send_ack s seq message w =
     (case build_header VERSION TYPE_ACK seq (int (length message)) of
        Inl e \<Rightarrow> (Inl e, w)
      | Inr hdr \<Rightarrow>
          (case sock_sendall s (hdr @ message) w of
             (Inl e, w1) \<Rightarrow> (Inr (), logging WARNING w1)
           | (Inr u, w1) \<Rightarrow> (Inr (), w1)))"

fun broadcast_loop :: "sock list \<Rightarrow> bytes \<Rightarrow> bytes \<Rightarrow> world \<Rightarrow> world" where
  "broadcast_loop [] header payload w = w"
| "broadcast_loop (s # ss) header payload w =
     (case sock_sendall s (header @ payload) w of
        (Inl e, w1) \<Rightarrow> broadcast_loop ss header payload (logging WARNING (emit RegRead w1))
      | (Inr u, w1) \<Rightarrow> broadcast_loop ss header payload w1)"

definition broadcast :: "sock \<Rightarrow> bytes \<Rightarrow> bytes \<Rightarrow> world \<Rightarrow> world" where
  "broadcast sender_sock header payload w =
     (let w1 = emit RegRead (emit Acquire w);
          recipients = filter (\<lambda>s. s \<noteq> sender_sock) (map fst (clients w1));
          w2 = emit Release w1
      in broadcast_loop recipients header payload w2)"

text \<open>
  The head of the loop body of \<^verbatim>\<open>handle_client\<close>: one header, then the payload that the
  header announces.
\<close>

datatype read_result =
    Lost                              \<comment> \<open>the stream closed where a header was expected\<close>
  | LostInPayload                     \<comment> \<open>the stream closed inside a payload\<close>
  | Got int int int int bytes         \<comment> \<open>version, type, sequence, length and payload\<close>

definition read_frame :: "sock \<Rightarrow> world \<Rightarrow> (error + read_result) \<times> world" where
  "read_frame conn w =
     (case recv_all conn HEADER_SIZE w of
        (Inl e, w1) \<Rightarrow> (Inl e, w1)
      | (Inr None, w1) \<Rightarrow> (Inr Lost, logging INFO w1)
      | (Inr (Some hdr_bytes), w1) \<Rightarrow>
          (case parse_header hdr_bytes of
             Inl e \<Rightarrow> (Inl e, w1)
           | Inr (version, ty, seq, len) \<Rightarrow>
               (if len > 0 then
                  (case recv_all conn (nat len) w1 of
                     (Inl e, w2) \<Rightarrow> (Inl e, w2)
                   | (Inr None, w2) \<Rightarrow> (Inr LostInPayload, logging INFO w2)
                   | (Inr (Some payload), w2) \<Rightarrow> (Inr (Got version ty seq len payload), w2))
                else (Inr (Got version ty seq len []), w1))))"

text \<open>
  The rest of the loop body: the dispatch on the frame type, one definition for each
  branch of the \<^verbatim>\<open>if\<close>/\<^verbatim>\<open>elif\<close> chain that does more than log. The local
  variable \<^verbatim>\<open>name\<close> is threaded through; \<open>Break\<close> leaves the loop.
\<close>

datatype 'a flow = Continue 'a | Break

definition file_name :: "int \<Rightarrow> int \<Rightarrow> str" where
  "file_name now seq = lit ''recv_file_'' @ str_int now @ lit ''_'' @ str_int seq @ lit ''.bin''"

definition handle_connect ::
  "sock \<Rightarrow> addr \<Rightarrow> int \<Rightarrow> bytes \<Rightarrow> world \<Rightarrow> (error + str option flow) \<times> world" where
  "handle_connect conn addr seq payload w =
     (let name' = (case utf8_decode Ignore payload of
                     Inr s \<Rightarrow> s
                   | Inl e \<Rightarrow> str_addr addr);
          w1 = emit Acquire w;
          w2 = emit (RegStore conn)
                 (w1\<lparr>clients := AList.update conn
                        \<lparr>info_name = name', info_addr = addr\<rparr> (clients w1)\<rparr>);
          w3 = logging INFO (emit Release w2)
      in (case send_ack conn seq (bytes_lit ''CONNECTED'') w3 of
            (Inl e, w4) \<Rightarrow> (Inl e, w4)
          | (Inr u, w4) \<Rightarrow> (Inr (Continue (Some name')), w4)))"

definition handle_msg ::
  "sock \<Rightarrow> str option \<Rightarrow> int \<Rightarrow> int \<Rightarrow> int \<Rightarrow> bytes \<Rightarrow> world
     \<Rightarrow> (error + str option flow) \<times> world" where
  "handle_msg conn name version seq len payload w =
     (let w1 = logging INFO w in
      case build_header version TYPE_MSG seq len of
        Inl e \<Rightarrow> (Inl e, w1)
      | Inr header \<Rightarrow>
          (case send_ack conn seq (bytes_lit ''MSG_RECEIVED'')
                  (broadcast conn header payload w1) of
             (Inl e, w2) \<Rightarrow> (Inl e, w2)
           | (Inr u, w2) \<Rightarrow> (Inr (Continue name), w2)))"

definition handle_list ::
  "sock \<Rightarrow> str option \<Rightarrow> int \<Rightarrow> world \<Rightarrow> (error + str option flow) \<times> world" where
  "handle_list conn name seq w =
     (let w1 = emit RegRead (emit Acquire w);
          names = filter (\<lambda>n. n \<noteq> []) (map (\<lambda>(s, info). info_name info) (clients w1));
          w2 = emit Release w1
      in case utf8_encode (join (lit '';'') names) of
           Inl e \<Rightarrow> (Inl e, w2)
         | Inr list_payload \<Rightarrow>
             (case build_header VERSION TYPE_LIST seq (int (length list_payload)) of
                Inl e \<Rightarrow> (Inl e, w2)
              | Inr resp_hdr \<Rightarrow>
                  (case sock_sendall conn (resp_hdr @ list_payload) w2 of
                     (Inl e, w3) \<Rightarrow> (Inl e, w3)
                   | (Inr u, w3) \<Rightarrow> (Inr (Continue name), w3))))"

definition handle_file ::
  "sock \<Rightarrow> str option \<Rightarrow> int \<Rightarrow> bytes \<Rightarrow> world \<Rightarrow> (error + str option flow) \<times> world" where
  "handle_file conn name seq payload w =
     (let fname = file_name (clock w) seq in
      case file_append fname payload w of
        (Inl e, w1) \<Rightarrow> (Inl e, w1)
      | (Inr u, w1) \<Rightarrow>
          (case utf8_encode (lit ''FILE_SAVED:'' @ fname) of
             Inl e \<Rightarrow> (Inl e, logging INFO w1)
           | Inr message \<Rightarrow>
               (case send_ack conn seq message (logging INFO w1) of
                  (Inl e, w2) \<Rightarrow> (Inl e, w2)
                | (Inr u, w2) \<Rightarrow> (Inr (Continue name), w2))))"

definition handle_disconnect ::
  "sock \<Rightarrow> int \<Rightarrow> world \<Rightarrow> (error + str option flow) \<times> world" where
  "handle_disconnect conn seq w =
     (case send_ack conn seq (bytes_lit ''BYE'') (logging INFO w) of
        (Inl e, w1) \<Rightarrow> (Inl e, w1)
      | (Inr u, w1) \<Rightarrow> (Inr Break, w1))"

definition handle_frame ::
  "sock \<Rightarrow> addr \<Rightarrow> str option \<Rightarrow> int \<Rightarrow> int \<Rightarrow> int \<Rightarrow> int \<Rightarrow> bytes \<Rightarrow> world
     \<Rightarrow> (error + str option flow) \<times> world" where
  "handle_frame conn addr name version ty seq len payload w0 =
     (let w = logging INFO w0 in
      if ty = TYPE_CONNECT then handle_connect conn addr seq payload w
      else if ty = TYPE_MSG then handle_msg conn name version seq len payload w
      else if ty = TYPE_LIST then handle_list conn name seq w
      else if ty = TYPE_FILE then handle_file conn name seq payload w
      else if ty = TYPE_DISCONNECT then handle_disconnect conn seq w
      else if ty = TYPE_ACK then (Inr (Continue name), logging DEBUG w)
      else (Inr (Continue name), logging WARNING w))"

definition handle_iteration ::
  "sock \<Rightarrow> addr \<Rightarrow> str option \<Rightarrow> world \<Rightarrow> (error + str option flow) \<times> world" where
  "handle_iteration conn addr name w =
     (case read_frame conn w of
        (Inl e, w1) \<Rightarrow> (Inl e, w1)
      | (Inr Lost, w1) \<Rightarrow> (Inr Break, w1)
      | (Inr LostInPayload, w1) \<Rightarrow> (Inr Break, w1)
      | (Inr (Got version ty seq len payload), w1) \<Rightarrow>
          handle_frame conn addr name version ty seq len payload w1)"

text \<open>
  \<^verbatim>\<open>while True\<close>: the loop ends by \<^verbatim>\<open>break\<close> (\<open>None\<close>) or by an exception
  (\<open>Some e\<close>), which \<^verbatim>\<open>handle_client\<close> catches and logs.
\<close>

function handle_loop :: "sock \<Rightarrow> addr \<Rightarrow> str option \<Rightarrow> world \<Rightarrow> error option \<times> world" where
  "handle_loop conn addr name w =
     (case handle_iteration conn addr name w of
        (Inl e, w1) \<Rightarrow> (Some e, w1)
      | (Inr Break, w1) \<Rightarrow> (None, w1)
      | (Inr (Continue name'), w1) \<Rightarrow> handle_loop conn addr name' w1)"
  by pat_completeness auto

text \<open>The \<^verbatim>\<open>finally\<close> block: remove the connection under the lock, then close it.\<close>

definition unregister :: "sock \<Rightarrow> world \<Rightarrow> world" where
  "unregister conn w =
     (let w1 = emit RegRead (emit Acquire w);
          w2 = (if conn \<in> fst ` set (clients w1)
                then (let w' = logging INFO (emit RegRead w1)
                      in emit (RegDelete conn) (w'\<lparr>clients := AList.delete conn (clients w')\<rparr>))
                else w1)
      in emit Release w2)"

definition handle_client :: "sock \<Rightarrow> addr \<Rightarrow> world \<Rightarrow> world" where
  "handle_client conn addr w =
     (case handle_loop conn addr None (logging INFO w) of
        (exc, w1) \<Rightarrow>
          (let w2 = (case exc of None \<Rightarrow> w1 | Some e \<Rightarrow> logging ERROR w1);
               w3 = sock_close conn (unregister conn w2)
           in logging INFO w3))"

section \<open>The client\<close>

text \<open>
  The sending side of \<^verbatim>\<open>client.py\<close>. Its world holds the files it can read, how many
  calls of \<^verbatim>\<open>sendall\<close> the connection still accepts (\<open>None\<close>: all of them), the byte
  strings written so far, one for each call, and whether the socket was closed. The
  receiving thread only prints, and is left out. The codec is the server's.
\<close>

record cworld =
  files :: "str \<Rightarrow> bytes option"
  tx_limit :: "nat option"
  wire :: "bytes list"
  sock_closed :: bool

definition client_sendall :: "bytes \<Rightarrow> cworld \<Rightarrow> (error + unit) \<times> cworld" where
  "client_sendall data cw =
     (if (case tx_limit cw of None \<Rightarrow> True | Some k \<Rightarrow> length (wire cw) < k)
      then (Inr (), cw\<lparr>wire := wire cw @ [data]\<rparr>)
      else (Inl OSError, cw))"

definition send_connect :: "str \<Rightarrow> int \<Rightarrow> cworld \<Rightarrow> (error + unit) \<times> cworld" where
  "send_connect name seq cw =
     (case utf8_encode name of
        Inl e \<Rightarrow> (Inl e, cw)
      | Inr payload \<Rightarrow>
          (case build_header VERSION TYPE_CONNECT seq (int (length payload)) of
             Inl e \<Rightarrow> (Inl e, cw)
           | Inr hdr \<Rightarrow> client_sendall (hdr @ payload) cw))"

definition send_msg :: "str \<Rightarrow> int \<Rightarrow> cworld \<Rightarrow> (error + unit) \<times> cworld" where
  "send_msg text seq cw =
     (case utf8_encode text of
        Inl e \<Rightarrow> (Inl e, cw)
      | Inr payload \<Rightarrow>
          (case build_header VERSION TYPE_MSG seq (int (length payload)) of
             Inl e \<Rightarrow> (Inl e, cw)
           | Inr hdr \<Rightarrow> client_sendall (hdr @ payload) cw))"

definition send_list :: "int \<Rightarrow> cworld \<Rightarrow> (error + unit) \<times> cworld" where
  "send_list seq cw =
     (case build_header VERSION TYPE_LIST seq 0 of
        Inl e \<Rightarrow> (Inl e, cw)
      | Inr hdr \<Rightarrow> client_sendall hdr cw)"

definition send_disconnect :: "int \<Rightarrow> cworld \<Rightarrow> (error + unit) \<times> cworld" where
  "send_disconnect seq cw =
     (case build_header VERSION TYPE_DISCONNECT seq 0 of
        Inl e \<Rightarrow> (Inl e, cw)
      | Inr hdr \<Rightarrow> client_sendall hdr cw)"

text \<open>
  \<^verbatim>\<open>send_file\<close>: nothing is sent for a path that is not a file; otherwise the file goes
  out in chunks, the local \<^verbatim>\<open>seq\<close> going up by one, modulo 65536, after each chunk.
  The function returns nothing: the caller does not learn how far \<^verbatim>\<open>seq\<close> went.
\<close>

function send_file_loop :: "nat \<Rightarrow> bytes \<Rightarrow> int \<Rightarrow> cworld \<Rightarrow> (error + unit) \<times> cworld" where
  "send_file_loop chunk_size content seq cw =
     (let chunk = take chunk_size content in
      if chunk = [] then (Inr (), cw)
      else (case build_header VERSION TYPE_FILE seq (int (length chunk)) of
              Inl e \<Rightarrow> (Inl e, cw)
            | Inr hdr \<Rightarrow>
                (case client_sendall (hdr @ chunk) cw of
                   (Inl e, cw1) \<Rightarrow> (Inl e, cw1)
                 | (Inr u, cw1) \<Rightarrow>
                     send_file_loop chunk_size (drop chunk_size content)
                       ((seq + 1) mod 65536) cw1)))"
  by pat_completeness auto

termination
  by (relation "measure (\<lambda>(chunk_size, content, seq, cw). length content)") auto

declare send_file_loop.simps [simp del]

definition send_file :: "str \<Rightarrow> int \<Rightarrow> nat \<Rightarrow> cworld \<Rightarrow> (error + unit) \<times> cworld" where
  "send_file filepath seq_start chunk_size cw =
     (case files cw filepath of
        None \<Rightarrow> (Inr (), cw)
      | Some content \<Rightarrow> send_file_loop chunk_size content seq_start cw)"

text \<open>\<^verbatim>\<open>str.startswith\<close>, and \<^verbatim>\<open>str.strip\<close> with the characters of \<^verbatim>\<open>str.isspace\<close>.\<close>

definition startswith :: "str \<Rightarrow> str \<Rightarrow> bool" where
  "startswith s p = (take (length p) s = p)"

definition isspace :: "nat \<Rightarrow> bool" where
  "isspace c = ((9 \<le> c \<and> c \<le> 13) \<or> (28 \<le> c \<and> c \<le> 32) \<or> c = 133 \<or> c = 160 \<or> c = 5760
     \<or> (8192 \<le> c \<and> c \<le> 8202) \<or> c = 8232 \<or> c = 8233 \<or> c = 8239 \<or> c = 8287 \<or> c = 12288)"

definition strip :: "str \<Rightarrow> str" where
  "strip s = rev (dropWhile isspace (rev (dropWhile isspace s)))"

text \<open>
  The command loop of \<^verbatim>\<open>main\<close>. \<^verbatim>\<open>input()\<close> gives a line, is interrupted from the
  keyboard, or, when the input is at its end, raises \<^verbatim>\<open>EOFError\<close>. An exception other
  than the interrupt leaves \<^verbatim>\<open>main\<close> through the \<^verbatim>\<open>finally\<close> block.
\<close>

datatype input = Line str | Interrupt

datatype client_exit = Quit | Interrupted | Died error

fun main_loop :: "input list \<Rightarrow> int \<Rightarrow> cworld \<Rightarrow> client_exit \<times> cworld" where
  "main_loop [] seq cw = (Died EOFError, cw)"
| "main_loop (Interrupt # rest) seq cw =
     (case send_disconnect seq cw of
        (Inl e, cw1) \<Rightarrow> (Died e, cw1)
      | (Inr u, cw1) \<Rightarrow> (Interrupted, cw1))"
| "main_loop (Line line # rest) seq cw =
     (if line = [] then main_loop rest seq cw
      else if startswith line (lit ''/quit'') \<or> startswith line (lit ''/exit'') then
        (case send_disconnect seq cw of
           (Inl e, cw1) \<Rightarrow> (Died e, cw1)
         | (Inr u, cw1) \<Rightarrow> (Quit, cw1))
      else if startswith line (lit ''/who'') \<or> startswith line (lit ''/list'') then
        (case send_list seq cw of
           (Inl e, cw1) \<Rightarrow> (Died e, cw1)
         | (Inr u, cw1) \<Rightarrow> main_loop rest ((seq + 1) mod 65536) cw1)
      else if startswith line (lit ''/sendfile '') then
        (case send_file (strip (drop 10 line)) seq 4096 cw of
           (Inl e, cw1) \<Rightarrow> (Died e, cw1)
         | (Inr u, cw1) \<Rightarrow> main_loop rest ((seq + 1) mod 65536) cw1)
      else
        (case send_msg line seq cw of
           (Inl e, cw1) \<Rightarrow> (Died e, cw1)
         | (Inr u, cw1) \<Rightarrow> main_loop rest ((seq + 1) mod 65536) cw1))"

definition main :: "str \<Rightarrow> input list \<Rightarrow> cworld \<Rightarrow> client_exit \<times> cworld" where
  "main name inputs cw =
     (case send_connect name 1 cw of
        (Inl e, cw1) \<Rightarrow> (Died e, cw1)
      | (Inr u, cw1) \<Rightarrow>
          (case main_loop inputs ((1 + 1) mod 65536) cw1 of
             (how, cw2) \<Rightarrow> (how, cw2\<lparr>sock_closed := True\<rparr>)))"

section \<open>Observations on a run\<close>

text \<open>The bytes that a socket still has to deliver, in order.\<close>

fun stream_bytes :: "rx_item list \<Rightarrow> bytes" where
  "stream_bytes [] = []"
| "stream_bytes (Seg bs # rest) = bs @ stream_bytes rest"
| "stream_bytes (Fault # rest) = stream_bytes rest"

text \<open>The events that a run from \<open>w\<close> to \<open>w'\<close> added to the trace.\<close>

definition events_since :: "world \<Rightarrow> world \<Rightarrow> event list" where
  "events_since w w' = drop (length (trace w)) (trace w')"

text \<open>The calls of \<^verbatim>\<open>sendall\<close> in a trace: the socket and the bytes, in program order.\<close>

definition sends_of :: "event list \<Rightarrow> (sock \<times> bytes) list" where
  "sends_of evs = concat (map (\<lambda>e. case e of Send s d ok \<Rightarrow> [(s, d)] | _ \<Rightarrow> []) evs)"

text \<open>Those of them that returned: what the peers were handed.\<close>

definition delivered :: "event list \<Rightarrow> (sock \<times> bytes) list" where
  "delivered evs =
     concat (map (\<lambda>e. case e of Send s d ok \<Rightarrow> (if ok then [(s, d)] else []) | _ \<Rightarrow> []) evs)"

text \<open>Events of the reader alone: a \<^verbatim>\<open>recv\<close> or a log line.\<close>

fun quiet :: "event \<Rightarrow> bool" where
  "quiet (Recv s n) = True"
| "quiet (Log l) = True"
| "quiet e = False"

text \<open>
  What a guarded \<^verbatim>\<open>sendall\<close> leaves in the trace: the call, and a warning when it
  raised. \<open>ack_events\<close> are the events of \<^verbatim>\<open>send_ack\<close>, \<open>fanout_events\<close> those of the
  loop of \<^verbatim>\<open>broadcast\<close>, whose warning reads the dictionary.
\<close>

definition writable :: "world \<Rightarrow> sock \<Rightarrow> bool" where
  "writable w s = (s \<notin> tx_down w \<and> s \<notin> closed_socks w)"

definition ack_events :: "sock \<Rightarrow> int \<Rightarrow> bytes \<Rightarrow> bool \<Rightarrow> event list" where
  "ack_events s seq message ok =
     (case build_header VERSION TYPE_ACK seq (int (length message)) of
        Inl e \<Rightarrow> []
      | Inr hdr \<Rightarrow>
          (if ok then [Send s (hdr @ message) True]
           else [Send s (hdr @ message) False, Log WARNING]))"

definition fanout_events :: "sock list \<Rightarrow> bytes \<Rightarrow> (sock \<Rightarrow> bool) \<Rightarrow> event list" where
  "fanout_events recipients data ok =
     concat (map (\<lambda>r. if ok r then [Send r data True]
                       else [Send r data False, RegRead, Log WARNING]) recipients)"

text \<open>
  A byte string handed to \<^verbatim>\<open>sendall\<close> is one whole frame when its first eight bytes
  parse as a header whose length field counts exactly the bytes after them.
\<close>

definition wf_frame :: "bytes \<Rightarrow> bool" where
  "wf_frame data =
     (case parse_header data of
        Inl e \<Rightarrow> False
      | Inr (v, t, s, l) \<Rightarrow> l = int (length data) - 8)"

text \<open>
  The lock along a trace. \<open>lock_run ok held evs\<close> follows the events from a state where
  the lock is held or not, and gives the state at the end; it gives \<open>None\<close> when the lock
  is taken while held (\<^verbatim>\<open>threading.Lock\<close> is not re-entrant), released while free, or
  when an event happens under the lock that \<open>ok\<close> does not allow there.
\<close>

fun lock_run :: "(event \<Rightarrow> bool) \<Rightarrow> bool \<Rightarrow> event list \<Rightarrow> bool option" where
  "lock_run ok held [] = Some held"
| "lock_run ok held (e # es) =
     (case e of
        Acquire \<Rightarrow> (if held then None else lock_run ok True es)
      | Release \<Rightarrow> (if held then lock_run ok False es else None)
      | _ \<Rightarrow> (if held \<and> \<not> ok e then None else lock_run ok held es))"

text \<open>Accesses to the dictionary: reading it, storing an entry, deleting one.\<close>

fun registry_access :: "event \<Rightarrow> bool" where
  "registry_access RegRead = True"
| "registry_access (RegStore s) = True"
| "registry_access (RegDelete s) = True"
| "registry_access e = False"

text \<open>The same, and the informational log line.\<close>

definition registry_access_or_info :: "event \<Rightarrow> bool" where
  "registry_access_or_info e = (registry_access e \<or> e = Log INFO)"

text \<open>
  What one iteration of the loop may add to the trace: the lock is taken and released in
  turn, with nothing but accesses to the dictionary in between; every \<^verbatim>\<open>sendall\<close>
  carries one whole frame; nothing is closed and nothing is deleted from the dictionary.
\<close>

fun is_close :: "event \<Rightarrow> bool" where
  "is_close (Close s) = True"
| "is_close e = False"

fun is_delete :: "event \<Rightarrow> bool" where
  "is_delete (RegDelete s) = True"
| "is_delete e = False"

definition orderly :: "event list \<Rightarrow> bool" where
  "orderly evs =
     (lock_run registry_access False evs = Some False
      \<and> list_all wf_frame (map snd (sends_of evs))
      \<and> list_all (\<lambda>e. \<not> is_close e \<and> \<not> is_delete e) evs)"

text \<open>A step from \<open>w\<close> to \<open>w'\<close> that only added such events to the trace.\<close>

definition step_ok :: "world \<Rightarrow> world \<Rightarrow> bool" where
  "step_ok w w' = (\<exists>evs. trace w' = trace w @ evs \<and> orderly evs)"

text \<open>
  Unicode scalar values: the code points that UTF-8 can encode. Every name in the
  dictionary comes out of the decoder, so it consists of them.
\<close>

definition scalar_value :: "nat \<Rightarrow> bool" where
  "scalar_value c = (c < 55296 \<or> (57344 \<le> c \<and> c < 1114112))"

definition registry_ok :: "world \<Rightarrow> bool" where
  "registry_ok w = list_all (\<lambda>(s, info). list_all scalar_value (info_name info)) (clients w)"

text \<open>The type and sequence number of each frame that a client wrote.\<close>

definition wire_seqs :: "bytes list \<Rightarrow> (int \<times> int) option list" where
  "wire_seqs frames =
     map (\<lambda>d. case parse_header d of Inl e \<Rightarrow> None | Inr (v, t, s, l) \<Rightarrow> Some (t, s)) frames"

section \<open>Example worlds\<close>

text \<open>Small concrete states, on which the theorems below are run.\<close>

definition peer :: "string \<Rightarrow> int \<Rightarrow> client_info" where
  "peer n port = \<lparr>info_name = lit n, info_addr = (lit ''10.0.0.1'', port)\<rparr>"

definition quiet_world :: "(sock \<times> client_info) list \<Rightarrow> world" where
  "quiet_world cs =
     \<lparr>clients = cs, rx = (\<lambda>s. []), tx_down = {}, closed_socks = {}, fs_fail = {},
      clock = 1700000000, trace = []\<rparr>"

definition feed :: "sock \<Rightarrow> rx_item list \<Rightarrow> world \<Rightarrow> world" where
  "feed s items w = w\<lparr>rx := (rx w)(s := items)\<rparr>"

definition chat3 :: world where
  "chat3 = (quiet_world [(1, peer ''A'' 5001), (2, peer ''B'' 5002), (3, peer ''C'' 5003)])
             \<lparr>tx_down := {3}\<rparr>"

definition names3 :: world where
  "names3 = feed 1 [Seg [1, 3, 0, 7, 0, 0, 0, 0]]
     (quiet_world [(1, peer ''Ann'' 5001), (2, peer [] 5002), (3, peer ''Bob'' 5003)])"

definition names2 :: world where
  "names2 = feed 2 [Seg [1, 3, 0, 7, 0, 0, 0, 0]]
     (quiet_world [(1, peer [] 5001), (2, peer ''Bob'' 5002)])"

definition pair2 :: "(sock \<times> client_info) list" where
  "pair2 = [(1, peer ''A'' 5001), (2, peer ''B'' 5002)]"

definition session1 :: world where
  "session1 = feed 1
     [Seg ([1, 1, 0, 1, 0, 0, 0, 1, 65] @ [1, 2, 0, 2, 0, 0, 0, 2, 104, 105]),
      Seg ([1, 3, 0, 3, 0, 0, 0, 0] @ [1, 4, 0, 4, 0, 0, 0, 3, 7, 8, 9] @ [1, 6, 0, 5, 0, 0, 0, 0])]
     ((quiet_world [(2, peer ''B'' 5002), (3, peer ''C'' 5003)])\<lparr>tx_down := {3}\<rparr>)"

definition desk :: cworld where
  "desk = \<lparr>files = (\<lambda>p. if p = lit ''f'' then Some (replicate 4097 0) else None),
           tx_limit = None, wire = [], sock_closed = False\<rparr>"

section \<open>Properties of the codec\<close>

lemma length_pack_be: "length (pack_be n x) = n"
  by (induction n arbitrary: x) simp_all

lemma unpack_be_snoc: "unpack_be (bs @ [b]) = unpack_be bs * 256 + uint b"
  by (simp add: unpack_be_def)

lemma unpack_pack_be: "0 \<le> x \<Longrightarrow> x < 256 ^ n \<Longrightarrow> unpack_be (pack_be n x) = x"
proof (induction n arbitrary: x)
  case 0
  then show ?case by (simp add: unpack_be_def)
next
  case (Suc n)
  have lo: "0 \<le> x div 256" using Suc.prems(1) by simp
  have hi: "x div 256 < 256 ^ n" using Suc.prems by (simp add: div_less_iff_less_mult mult.commute)
  have byte: "uint (word_of_int x :: byte) = x mod 256"
    by (simp add: uint_word_of_int_eq take_bit_eq_mod)
  show ?case
    using Suc.IH [OF lo hi] by (simp add: unpack_be_snoc byte)
qed

lemma length_build_header: "build_header v t s l = Inr h \<Longrightarrow> length h = 8"
  by (auto simp: build_header_def length_pack_be split: if_splits)

lemma parse_build_header:
  assumes "build_header v t s l = Inr h"
  shows "parse_header (h @ rest) = Inr (v, t, s, l)"
proof -
  from assms have rng: "0 \<le> v" "v < 256 ^ 1" "0 \<le> t" "t < 256 ^ 1" "0 \<le> s" "s < 256 ^ 2"
      "0 \<le> l" "l < 256 ^ 4"
    and h: "h = pack_be 1 v @ pack_be 1 t @ pack_be 2 s @ pack_be 4 l"
    by (auto simp: build_header_def split: if_splits)
  have "unpack_be (pack_be 1 v) = v" "unpack_be (pack_be 1 t) = t"
    "unpack_be (pack_be 2 s) = s" "unpack_be (pack_be 4 l) = l"
    using rng by (simp_all only: unpack_pack_be)
  then show ?thesis
    unfolding parse_header_def HEADER_SIZE_def h
    by (simp add: length_pack_be)
qed

lemma unpack_be_range: "0 \<le> unpack_be bs \<and> unpack_be bs < 256 ^ length bs"
proof (induction bs rule: rev_induct)
  case Nil
  then show ?case by (simp add: unpack_be_def)
next
  case (snoc b bs)
  have "0 \<le> uint b" "uint b < 256" using uint_bounded [of b] by simp_all
  with snoc show ?case by (simp add: unpack_be_snoc)
qed

lemma byte_of_shifted: "(word_of_int (k * 256 + uint b) :: byte) = b"
proof -
  have "(word_of_int (k * 256 + uint b) :: byte) = word_of_int (uint b)"
    unfolding word_of_int_eq_iff by (simp add: take_bit_eq_mod)
  then show ?thesis by (simp only: word_of_int_uint)
qed

lemma pack_unpack_be: "pack_be (length bs) (unpack_be bs) = bs"
proof (induction bs rule: rev_induct)
  case Nil
  then show ?case by simp
next
  case (snoc b bs)
  have "0 \<le> uint b" "uint b < 256" using uint_bounded [of b] by simp_all
  then have "(unpack_be bs * 256 + uint b) div 256 = unpack_be bs" by simp
  then have "pack_be (Suc (length bs)) (unpack_be bs * 256 + uint b)
      = pack_be (length bs) (unpack_be bs) @ [b]"
    by (simp only: pack_be.simps byte_of_shifted)
  with snoc show ?case by (simp only: unpack_be_snoc length_append_singleton)
qed

lemma build_parse_header:
  assumes "parse_header hdr = Inr (v, t, s, l)" "length hdr = 8"
  shows "build_header v t s l = Inr hdr"
proof -
  from assms have v: "v = unpack_be (take 1 hdr)" and t: "t = unpack_be (take 1 (drop 1 hdr))"
    and s: "s = unpack_be (take 2 (drop 2 hdr))" and l: "l = unpack_be (take 4 (drop 4 hdr))"
    by (simp_all add: parse_header_def HEADER_SIZE_def)
  have r1: "0 \<le> v \<and> v < 256 ^ 1" using unpack_be_range [of "take 1 hdr"] assms(2) by (simp add: v)
  have r2: "0 \<le> t \<and> t < 256 ^ 1"
    using unpack_be_range [of "take 1 (drop 1 hdr)"] assms(2) by (simp add: t)
  have r3: "0 \<le> s \<and> s < 256 ^ 2"
    using unpack_be_range [of "take 2 (drop 2 hdr)"] assms(2) by (simp add: s)
  have r4: "0 \<le> l \<and> l < 256 ^ 4"
    using unpack_be_range [of "take 4 (drop 4 hdr)"] assms(2) by (simp add: l)
  have p1: "pack_be 1 v = take 1 hdr"
    using pack_unpack_be [of "take 1 hdr"] assms(2) by (simp add: v)
  have p2: "pack_be 1 t = take 1 (drop 1 hdr)"
    using pack_unpack_be [of "take 1 (drop 1 hdr)"] assms(2) by (simp add: t)
  have p3: "pack_be 2 s = take 2 (drop 2 hdr)"
    using pack_unpack_be [of "take 2 (drop 2 hdr)"] assms(2) by (simp add: s)
  have p4: "pack_be 4 l = take 4 (drop 4 hdr)"
    using pack_unpack_be [of "take 4 (drop 4 hdr)"] assms(2) by (simp add: l)
  have split: "take 1 hdr @ take 1 (drop 1 hdr) @ take 2 (drop 2 hdr) @ take 4 (drop 4 hdr) = hdr"
  proof -
    have "take 4 (drop 4 hdr) = drop 4 hdr" using assms(2) by simp
    moreover have "take 2 (drop 2 hdr) @ drop 4 hdr = drop 2 hdr"
      using append_take_drop_id [of 2 "drop 2 hdr"] by simp
    moreover have "take 1 (drop 1 hdr) @ drop 2 hdr = drop 1 hdr"
      using append_take_drop_id [of 1 "drop 1 hdr"] by (simp add: numeral_2_eq_2)
    ultimately show ?thesis by simp
  qed
  have "build_header v t s l = Inr (pack_be 1 v @ pack_be 1 t @ pack_be 2 s @ pack_be 4 l)"
    using r1 r2 r3 r4 unfolding build_header_def by simp
  then show ?thesis unfolding p1 p2 p3 p4 split .
qed

lemma parse_header_range:
  assumes "parse_header hdr = Inr (v, t, s, l)"
  shows "0 \<le> v \<and> v \<le> 255 \<and> 0 \<le> t \<and> t \<le> 255 \<and> 0 \<le> s \<and> s \<le> 65535 \<and> 0 \<le> l \<and> l \<le> 4294967295"
proof -
  from assms have len: "8 \<le> length hdr"
    by (simp add: parse_header_def HEADER_SIZE_def split: if_splits)
  from assms len have "parse_header (take 8 hdr) = Inr (v, t, s, l)"
    by (simp add: parse_header_def HEADER_SIZE_def Let_def min_def)
  moreover have "length (take 8 hdr) = 8" using len by simp
  ultimately have "build_header v t s l = Inr (take 8 hdr)" by (rule build_parse_header)
  then show ?thesis by (simp add: build_header_def split: if_splits)
qed

lemma wf_frame_built: "build_header v t s (int (length m)) = Inr hdr \<Longrightarrow> wf_frame (hdr @ m)"
  using parse_build_header [of v t s "int (length m)" hdr m] length_build_header [of v t s "int (length m)" hdr]
  by (simp add: wf_frame_def)

lemma build_ack:
  "0 \<le> q \<Longrightarrow> q \<le> 65535 \<Longrightarrow> length m < 2 ^ 32 \<Longrightarrow>
     \<exists>hdr. build_header VERSION TYPE_ACK q (int (length m)) = Inr hdr"
  by (simp add: build_header_def VERSION_def TYPE_ACK_def)

section \<open>Properties of the text codec\<close>

lemma utf8_dec_ignore_total: "\<exists>s. utf8_dec Ignore bs = Inr s"
proof (induction "Ignore" bs rule: utf8_dec.induct)
  case 1
  show ?case by simp
next
  case (2 ch rest)
  show ?case
  proof (cases "utf8_next ch rest")
    case (Char c k)
    with 2(1) [OF Char] show ?thesis by auto
  next
    case (Bad k)
    with 2(2) [OF Bad] show ?thesis by auto
  qed
qed

lemma utf8_dec_strict_ignore: "utf8_dec Strict bs = Inr s \<Longrightarrow> utf8_dec Ignore bs = Inr s"
proof (induction bs arbitrary: s rule: length_induct)
  case (1 bs)
  show ?case
  proof (cases bs)
    case Nil
    with 1(2) show ?thesis by simp
  next
    case (Cons ch rest)
    show ?thesis
    proof (cases "utf8_next ch rest")
      case (Bad k)
      with 1(2) Cons show ?thesis by simp
    next
      case (Char c k)
      with 1(2) Cons obtain s' where s': "utf8_dec Strict (drop (k - 1) rest) = Inr s'" "s = c # s'"
        by (auto split: sum.splits)
      have "length (drop (k - 1) rest) < length bs" using Cons by simp
      with 1(1) s'(1) have "utf8_dec Ignore (drop (k - 1) rest) = Inr s'" by blast
      with Char Cons s'(2) show ?thesis by simp
    qed
  qed
qed

lemma utf8_decode_ignore_total: "\<exists>s. utf8_decode Ignore data = Inr s"
  unfolding utf8_decode_def by (rule utf8_dec_ignore_total)

lemma next2:
  assumes "utf8_next ch rest = Char c k" "194 \<le> ch" "ch < 224"
  shows "\<exists>ch2. is_cont ch2 \<and> c = (ch mod 32) * 64 + ch2 mod 64"
proof -
  have "\<not> ch < 128" "\<not> ch < 194" using assms by simp_all
  with assms(1,3) show ?thesis
    by (simp add: utf8_next_def split: list.splits if_splits) blast
qed

lemma next3:
  assumes "utf8_next ch rest = Char c k" "224 \<le> ch" "ch < 240"
  shows "\<exists>ch2 ch3. is_cont ch2 \<and> is_cont ch3 \<and> \<not> (if ch2 < 160 then ch = 224 else ch = 237)
     \<and> c = ((ch mod 16) * 64 + ch2 mod 64) * 64 + ch3 mod 64"
proof -
  have "\<not> ch < 128" "\<not> ch < 224" using assms by simp_all
  with assms(1,3) show ?thesis
    by (simp add: utf8_next_def split: list.splits if_splits) blast+
qed

lemma next4:
  assumes "utf8_next ch rest = Char c k" "240 \<le> ch" "ch < 245"
  shows "\<exists>ch2 ch3 ch4. is_cont ch2 \<and> is_cont ch3 \<and> is_cont ch4
     \<and> \<not> (if ch2 < 144 then ch = 240 else ch = 244)
     \<and> c = (((ch mod 8) * 64 + ch2 mod 64) * 64 + ch3 mod 64) * 64 + ch4 mod 64"
proof -
  have "\<not> ch < 128" "\<not> ch < 224" "\<not> ch < 240" using assms by simp_all
  with assms(1,3) show ?thesis
    by (simp add: utf8_next_def split: list.splits if_splits) blast+
qed

lemma next_range:
  assumes "utf8_next ch rest = Char c k"
  shows "ch < 128 \<or> (194 \<le> ch \<and> ch < 224) \<or> (224 \<le> ch \<and> ch < 240) \<or> (240 \<le> ch \<and> ch < 245)"
proof (rule ccontr)
  assume "\<not> ?thesis"
  then have "\<not> ch < 128" "(ch < 194 \<or> \<not> ch < 245)" by auto
  with assms show False by (auto simp: utf8_next_def)
qed

lemma mod_offset:
  "k < 64 \<Longrightarrow> (128 + k) mod 64 = (k::nat)" "k < 16 \<Longrightarrow> (224 + k) mod 16 = (k::nat)"
  "k < 5 \<Longrightarrow> (240 + k) mod 8 = (k::nat)"
  by (rule mod_nat_eqI; simp)+

lemma cont_offset: "is_cont b \<Longrightarrow> \<exists>k. b = 128 + k \<and> k < 64"
proof -
  assume "is_cont b"
  then have "128 \<le> b" "b < 192" by (simp_all add: is_cont_def)
  then have "b = 128 + (b - 128)" "b - 128 < 64" by simp_all
  then show ?thesis by blast
qed

lemma lead_offset: "(lo::nat) \<le> ch \<Longrightarrow> ch < lo + n \<Longrightarrow> \<exists>a. ch = lo + a \<and> a < n"
proof -
  assume "lo \<le> ch" "ch < lo + n"
  then have "ch = lo + (ch - lo)" "ch - lo < n" by simp_all
  then show ?thesis by blast
qed

lemma utf8_next_scalar:
  assumes "utf8_next ch rest = Char c k"
  shows "scalar_value c"
proof -
  from next_range [OF assms]
  consider "ch < 128" | "194 \<le> ch" "ch < 224" | "224 \<le> ch" "ch < 240" | "240 \<le> ch" "ch < 245"
    by blast
  then show ?thesis
  proof cases
    case 1
    with assms show ?thesis by (simp add: utf8_next_def scalar_value_def)
  next
    case 2
    from next2 [OF assms 2] obtain ch2 where c: "is_cont ch2" "c = (ch mod 32) * 64 + ch2 mod 64"
      by blast
    define x where "x = ch mod 32"
    define y where "y = ch2 mod 64"
    have "x < 32" "y < 64" by (simp_all add: x_def y_def)
    moreover have "c = x * 64 + y" by (simp add: c(2) x_def y_def)
    ultimately have "c < 55296" by linarith
    then show ?thesis by (simp add: scalar_value_def)
  next
    case 3
    from next3 [OF assms 3] obtain ch2 ch3 where c: "is_cont ch2" "is_cont ch3"
      "\<not> (if ch2 < 160 then ch = 224 else ch = 237)"
      "c = ((ch mod 16) * 64 + ch2 mod 64) * 64 + ch3 mod 64"
      by blast
    from cont_offset [OF c(1)] obtain b where b: "ch2 = 128 + b" "b < 64" by blast
    from cont_offset [OF c(2)] obtain d where d: "ch3 = 128 + d" "d < 64" by blast
    from lead_offset [of 224 ch 16] 3 obtain a where a: "ch = 224 + a" "a < 16" by auto
    have cv: "c = 4096 * a + 64 * b + d"
      unfolding c(4) a(1) b(1) d(1) mod_offset(1) [OF b(2)] mod_offset(1) [OF d(2)]
        mod_offset(2) [OF a(2)] by simp
    have c1: "b < 32 \<Longrightarrow> a \<noteq> 0" using c(3) unfolding a(1) b(1) by (simp split: if_splits)
    have c2: "\<not> b < 32 \<Longrightarrow> a \<noteq> 13" using c(3) unfolding a(1) b(1) by (simp split: if_splits)
    consider "a \<le> 12" | "a = 13" | "14 \<le> a" by linarith
    then have "c < 55296 \<or> (57344 \<le> c \<and> c < 1114112)"
    proof cases
      case 1
      then show ?thesis unfolding cv using b(2) d(2) by linarith
    next
      case 2
      with c2 have "b < 32" by blast
      then show ?thesis unfolding cv 2 using d(2) by linarith
    next
      case 3
      then show ?thesis unfolding cv using b(2) d(2) a(2) by linarith
    qed
    then show ?thesis by (simp add: scalar_value_def)
  next
    case 4
    from next4 [OF assms 4] obtain ch2 ch3 ch4 where c: "is_cont ch2" "is_cont ch3" "is_cont ch4"
      "\<not> (if ch2 < 144 then ch = 240 else ch = 244)"
      "c = (((ch mod 8) * 64 + ch2 mod 64) * 64 + ch3 mod 64) * 64 + ch4 mod 64"
      by blast
    from cont_offset [OF c(1)] obtain b where b: "ch2 = 128 + b" "b < 64" by blast
    from cont_offset [OF c(2)] obtain d where d: "ch3 = 128 + d" "d < 64" by blast
    from cont_offset [OF c(3)] obtain e where e: "ch4 = 128 + e" "e < 64" by blast
    from lead_offset [of 240 ch 5] 4 obtain a where a: "ch = 240 + a" "a < 5" by auto
    have cv: "c = 262144 * a + 4096 * b + 64 * d + e"
      unfolding c(5) a(1) b(1) d(1) e(1) mod_offset(1) [OF b(2)] mod_offset(1) [OF d(2)]
        mod_offset(1) [OF e(2)] mod_offset(3) [OF a(2)] by simp
    have c1: "b < 16 \<Longrightarrow> a \<noteq> 0" using c(4) unfolding a(1) b(1) by (simp split: if_splits)
    have c2: "\<not> b < 16 \<Longrightarrow> a \<noteq> 4" using c(4) unfolding a(1) b(1) by (simp split: if_splits)
    consider "a = 0" | "1 \<le> a" "a \<le> 3" | "a = 4" using a(2) by linarith
    then have "57344 \<le> c \<and> c < 1114112"
    proof cases
      case 1
      with c1 have "16 \<le> b" by force
      then show ?thesis unfolding cv 1 using b(2) d(2) e(2) by linarith
    next
      case 2
      then show ?thesis unfolding cv using b(2) d(2) e(2) by linarith
    next
      case 3
      with c2 have "b < 16" by blast
      then show ?thesis unfolding cv 3 using d(2) e(2) by linarith
    qed
    then show ?thesis by (simp add: scalar_value_def)
  qed
qed

lemma utf8_dec_scalar: "utf8_dec m bs = Inr s \<Longrightarrow> list_all scalar_value s"
proof (induction bs arbitrary: s rule: length_induct)
  case (1 bs)
  show ?case
  proof (cases bs)
    case Nil
    with 1(2) show ?thesis by simp
  next
    case (Cons ch rest)
    have shorter: "length (drop (k - 1) rest) < length bs" for k using Cons by simp
    show ?thesis
    proof (cases "utf8_next ch rest")
      case (Bad k)
      with 1(2) Cons have "utf8_dec m (drop (k - 1) rest) = Inr s"
        by (cases m) simp_all
      with 1(1) shorter show ?thesis by blast
    next
      case (Char c k)
      with 1(2) Cons obtain s' where s': "utf8_dec m (drop (k - 1) rest) = Inr s'" "s = c # s'"
        by (auto split: sum.splits)
      from 1(1) shorter s'(1) have "list_all scalar_value s'" by blast
      with utf8_next_scalar [OF Char] s'(2) show ?thesis by simp
    qed
  qed
qed

lemma utf8_encode_cp_scalar: "scalar_value c \<Longrightarrow> \<exists>b. utf8_encode_cp c = Inr b"
  unfolding utf8_encode_cp_def scalar_value_def by (elim disjE conjE) simp_all

lemma utf8_encode_scalar: "list_all scalar_value s \<Longrightarrow> \<exists>b. utf8_encode s = Inr b"
proof (induction s)
  case Nil
  show ?case by simp
next
  case (Cons c cs)
  then obtain b bs where "utf8_encode_cp c = Inr b" "utf8_encode cs = Inr bs"
    using utf8_encode_cp_scalar [of c] by auto
  then show ?case by simp
qed

lemma join_scalar:
  "list_all scalar_value sep \<Longrightarrow> list_all (list_all scalar_value) xs \<Longrightarrow>
     list_all scalar_value (join sep xs)"
  by (induction sep xs rule: join.induct) simp_all

section \<open>The primitives change what they should\<close>

lemma emit_fields [simp]:
  "clients (emit e w) = clients w" "rx (emit e w) = rx w" "tx_down (emit e w) = tx_down w"
  "closed_socks (emit e w) = closed_socks w" "fs_fail (emit e w) = fs_fail w"
  "clock (emit e w) = clock w" "trace (emit e w) = trace w @ [e]"
  by (simp_all add: emit_def)

lemma logging_fields [simp]:
  "clients (logging l w) = clients w" "rx (logging l w) = rx w"
  "tx_down (logging l w) = tx_down w" "closed_socks (logging l w) = closed_socks w"
  "fs_fail (logging l w) = fs_fail w" "clock (logging l w) = clock w"
  "trace (logging l w) = trace w @ [Log l]"
  by (simp_all add: logging_def)

lemma sock_sendall_fields [simp]:
  "clients (snd (sock_sendall s d w)) = clients w" "rx (snd (sock_sendall s d w)) = rx w"
  "tx_down (snd (sock_sendall s d w)) = tx_down w"
  "closed_socks (snd (sock_sendall s d w)) = closed_socks w"
  "fs_fail (snd (sock_sendall s d w)) = fs_fail w" "clock (snd (sock_sendall s d w)) = clock w"
  "trace (snd (sock_sendall s d w)) = trace w @ [Send s d (s \<notin> tx_down w \<and> s \<notin> closed_socks w)]"
  by (simp_all add: sock_sendall_def)

lemma sock_recv_fields [simp]:
  "clients (snd (sock_recv s n w)) = clients w"
  "tx_down (snd (sock_recv s n w)) = tx_down w"
  "closed_socks (snd (sock_recv s n w)) = closed_socks w"
  "fs_fail (snd (sock_recv s n w)) = fs_fail w" "clock (snd (sock_recv s n w)) = clock w"
  "trace (snd (sock_recv s n w)) = trace w @ [Recv s n]"
  "rx (snd (sock_recv s n w)) = (rx w)(s := snd (recv_items n (rx w s)))"
  "fst (sock_recv s n w) = fst (recv_items n (rx w s))"
  by (simp_all add: sock_recv_def split: prod.split)

lemma file_append_fields [simp]:
  "clients (snd (file_append f d w)) = clients w" "rx (snd (file_append f d w)) = rx w"
  "tx_down (snd (file_append f d w)) = tx_down w"
  "closed_socks (snd (file_append f d w)) = closed_socks w"
  "fs_fail (snd (file_append f d w)) = fs_fail w" "clock (snd (file_append f d w)) = clock w"
  "trace (snd (file_append f d w)) = trace w @ [FileAppend f d (f \<notin> fs_fail w)]"
  by (simp_all add: file_append_def)

lemma sock_close_fields [simp]:
  "clients (sock_close s w) = clients w" "rx (sock_close s w) = rx w"
  "tx_down (sock_close s w) = tx_down w"
  "closed_socks (sock_close s w) = insert s (closed_socks w)"
  "fs_fail (sock_close s w) = fs_fail w" "clock (sock_close s w) = clock w"
  "trace (sock_close s w) = trace w @ [Close s]"
  by (simp_all add: sock_close_def)

lemma writable_simps [simp]:
  "writable (emit e w) = writable w" "writable (logging l w) = writable w"
  "writable (snd (sock_sendall s d w)) = writable w"
  "writable (snd (file_append f d w)) = writable w"
  "writable (w\<lparr>clients := cs\<rparr>) = writable w"
  by (simp_all add: writable_def fun_eq_iff)

lemma writable_cong:
  "tx_down w' = tx_down w \<Longrightarrow> closed_socks w' = closed_socks w \<Longrightarrow> writable w' = writable w"
  by (simp add: writable_def fun_eq_iff)

lemma events_since_append [simp]: "trace w' = trace w @ evs \<Longrightarrow> events_since w w' = evs"
  by (simp add: events_since_def)

lemma sends_of_simps [simp]:
  "sends_of [] = []" "sends_of (a @ b) = sends_of a @ sends_of b"
  "sends_of (Send s d ok # es) = (s, d) # sends_of es"
  "sends_of (Acquire # es) = sends_of es" "sends_of (Release # es) = sends_of es"
  "sends_of (RegRead # es) = sends_of es" "sends_of (RegStore s # es) = sends_of es"
  "sends_of (RegDelete s # es) = sends_of es" "sends_of (Recv s n # es) = sends_of es"
  "sends_of (Close s # es) = sends_of es" "sends_of (FileAppend f d ok # es) = sends_of es"
  "sends_of (Log l # es) = sends_of es"
  by (simp_all add: sends_of_def)

lemma delivered_simps [simp]:
  "delivered [] = []" "delivered (a @ b) = delivered a @ delivered b"
  "delivered (Send s d ok # es) = (if ok then (s, d) # delivered es else delivered es)"
  "delivered (Acquire # es) = delivered es" "delivered (Release # es) = delivered es"
  "delivered (RegRead # es) = delivered es" "delivered (RegStore s # es) = delivered es"
  "delivered (RegDelete s # es) = delivered es" "delivered (Recv s n # es) = delivered es"
  "delivered (Close s # es) = delivered es" "delivered (FileAppend f d ok # es) = delivered es"
  "delivered (Log l # es) = delivered es"
  by (simp_all add: delivered_def)

lemma quiet_no_sends: "list_all quiet evs \<Longrightarrow> sends_of evs = [] \<and> delivered evs = []"
  by (induction evs) (auto elim: quiet.elims)

lemma sends_of_fanout [simp]: "sends_of (fanout_events rs d ok) = map (\<lambda>r. (r, d)) rs"
  by (induction rs) (simp_all add: fanout_events_def)

lemma delivered_fanout [simp]:
  "delivered (fanout_events rs d ok) = map (\<lambda>r. (r, d)) (filter ok rs)"
  by (induction rs) (simp_all add: fanout_events_def)

lemma sends_of_ack:
  "build_header VERSION TYPE_ACK q (int (length m)) = Inr hdr \<Longrightarrow>
     sends_of (ack_events s q m ok) = [(s, hdr @ m)]
     \<and> delivered (ack_events s q m ok) = (if ok then [(s, hdr @ m)] else [])"
  by (simp add: ack_events_def)

section \<open>Reading exactly \<open>n\<close> bytes\<close>

lemma recv_items_bytes:
  "recv_items n items = (Inr chunk, rest) \<Longrightarrow>
     stream_bytes items = chunk @ stream_bytes rest \<and> length chunk \<le> n"
  by (induction n items rule: recv_items.induct) (auto split: if_splits)

lemma recv_all_loop_frame:
  "recv_all_loop s n d w = (r, w') \<Longrightarrow>
     clients w' = clients w \<and> tx_down w' = tx_down w \<and> closed_socks w' = closed_socks w
     \<and> fs_fail w' = fs_fail w \<and> clock w' = clock w
     \<and> (\<forall>s'. s' \<noteq> s \<longrightarrow> rx w' s' = rx w s')
     \<and> (\<exists>evs. trace w' = trace w @ evs \<and> list_all quiet evs)"
proof (induction s n d w arbitrary: r w' rule: recv_all_loop.induct)
  case (1 s n data w)
  show ?case
  proof (cases "length data < n")
    case False
    with "1.prems" show ?thesis by (simp add: recv_all_loop.simps)
  next
    case True
    obtain x w1 where sr: "sock_recv s (n - length data) w = (x, w1)" by fastforce
    then have w1: "w1 = snd (sock_recv s (n - length data) w)" by simp
    have base: "clients w1 = clients w \<and> tx_down w1 = tx_down w \<and> closed_socks w1 = closed_socks w
       \<and> fs_fail w1 = fs_fail w \<and> clock w1 = clock w
       \<and> (\<forall>s'. s' \<noteq> s \<longrightarrow> rx w1 s' = rx w s')
       \<and> trace w1 = trace w @ [Recv s (n - length data)]"
      unfolding w1 by simp
    show ?thesis
    proof (cases x)
      case (Inl e)
      with "1.prems" True sr have "w' = w1" by (simp add: recv_all_loop.simps)
      with base show ?thesis by simp
    next
      case (Inr chunk)
      show ?thesis
      proof (cases "chunk = []")
        case True
        with "1.prems" \<open>length data < n\<close> sr Inr have "w' = w1" by (simp add: recv_all_loop.simps)
        with base show ?thesis by simp
      next
        case False
        with "1.prems" \<open>length data < n\<close> sr Inr
        have "recv_all_loop s n (data @ chunk) w1 = (r, w')" by (simp add: recv_all_loop.simps)
        from "1.IH" [OF \<open>length data < n\<close> sr [symmetric] Inr False this] base
        show ?thesis by auto
      qed
    qed
  qed
qed

lemma recv_all_loop_Some:
  "recv_all_loop s n d w = (Inr (Some d'), w') \<Longrightarrow> length d \<le> n \<Longrightarrow>
     length d' = n \<and> (\<exists>new. d' = d @ new \<and> stream_bytes (rx w s) = new @ stream_bytes (rx w' s))"
proof (induction s n d w arbitrary: w' rule: recv_all_loop.induct)
  case (1 s n data w)
  show ?case
  proof (cases "length data < n")
    case False
    with "1.prems" show ?thesis by (simp add: recv_all_loop.simps)
  next
    case True
    obtain x w1 where sr: "sock_recv s (n - length data) w = (x, w1)" by fastforce
    then have w1: "w1 = snd (sock_recv s (n - length data) w)"
      and x: "x = fst (recv_items (n - length data) (rx w s))" by (simp_all flip: sock_recv_fields(8))
    from "1.prems"(1) True sr obtain chunk where chunk: "x = Inr chunk" "chunk \<noteq> []"
      and rec: "recv_all_loop s n (data @ chunk) w1 = (Inr (Some d'), w')"
      by (cases x) (auto simp: recv_all_loop.simps split: if_splits)
    have ri: "recv_items (n - length data) (rx w s) = (Inr chunk, rx w1 s)"
      using chunk(1) x unfolding w1 by (simp add: prod_eq_iff)
    from recv_items_bytes [OF ri]
    have sb: "stream_bytes (rx w s) = chunk @ stream_bytes (rx w1 s)"
      and le: "length chunk \<le> n - length data" by simp_all
    from le True have "length (data @ chunk) \<le> n" by simp
    from "1.IH" [OF True sr [symmetric] chunk rec this] sb
    show ?thesis by auto
  qed
qed

lemma recv_items_no_fault:
  "Fault \<notin> set items \<Longrightarrow>
     \<exists>chunk rest. recv_items n items = (Inr chunk, rest) \<and> Fault \<notin> set rest
        \<and> (0 < n \<longrightarrow> (chunk = [] \<longleftrightarrow> stream_bytes items = []))"
  by (induction n items rule: recv_items.induct) auto

lemma recv_all_loop_no_fault:
  "Fault \<notin> set (rx w s) \<Longrightarrow> length d \<le> n \<Longrightarrow>
     Fault \<notin> set (rx (snd (recv_all_loop s n d w)) s)
     \<and> (if n - length d \<le> length (stream_bytes (rx w s))
        then fst (recv_all_loop s n d w) = Inr (Some (d @ take (n - length d) (stream_bytes (rx w s))))
           \<and> stream_bytes (rx (snd (recv_all_loop s n d w)) s)
               = drop (n - length d) (stream_bytes (rx w s))
        else fst (recv_all_loop s n d w) = Inr None)"
proof (induction s n d w rule: recv_all_loop.induct)
  case (1 s n data w)
  show ?case
  proof (cases "length data < n")
    case False
    with "1.prems" show ?thesis by (simp add: recv_all_loop.simps)
  next
    case True
    from recv_items_no_fault [OF "1.prems"(1), of "n - length data"] True
    obtain chunk rest where ri: "recv_items (n - length data) (rx w s) = (Inr chunk, rest)"
      and nf: "Fault \<notin> set rest" and em: "chunk = [] \<longleftrightarrow> stream_bytes (rx w s) = []"
      by auto
    define w1 where "w1 = snd (sock_recv s (n - length data) w)"
    have sr: "sock_recv s (n - length data) w = (Inr chunk, w1)"
      unfolding w1_def using ri by (simp add: prod_eq_iff)
    have rx1: "rx w1 s = rest" unfolding w1_def using ri by simp
    from recv_items_bytes [OF ri]
    have sb: "stream_bytes (rx w s) = chunk @ stream_bytes rest"
      and le: "length chunk \<le> n - length data" by simp_all
    show ?thesis
    proof (cases "chunk = []")
      case True
      with em sr \<open>length data < n\<close> nf rx1 show ?thesis
        by (simp add: recv_all_loop.simps)
    next
      case False
      have unf: "recv_all_loop s n data w = recv_all_loop s n (data @ chunk) w1"
        using sr True False by (subst recv_all_loop.simps) simp
      have len: "length (data @ chunk) \<le> n" using le True by simp
      have nf1: "Fault \<notin> set (rx w1 s)" using nf rx1 by simp
      have IH: "Fault \<notin> set (rx (snd (recv_all_loop s n (data @ chunk) w1)) s)
        \<and> (if n - length (data @ chunk) \<le> length (stream_bytes (rx w1 s))
           then fst (recv_all_loop s n (data @ chunk) w1)
                  = Inr (Some ((data @ chunk) @ take (n - length (data @ chunk)) (stream_bytes (rx w1 s))))
              \<and> stream_bytes (rx (snd (recv_all_loop s n (data @ chunk) w1)) s)
                  = drop (n - length (data @ chunk)) (stream_bytes (rx w1 s))
           else fst (recv_all_loop s n (data @ chunk) w1) = Inr None)"
        by (rule "1.IH" [OF True sr [symmetric] refl False nf1 len])
      have iff: "n - length (data @ chunk) \<le> length (stream_bytes (rx w1 s))
                  \<longleftrightarrow> n - length data \<le> length (stream_bytes (rx w s))"
        using le sb rx1 by auto
      have tk: "chunk @ take (n - length (data @ chunk)) (stream_bytes (rx w1 s))
                 = take (n - length data) (stream_bytes (rx w s))"
        using le sb rx1 by simp
      have dr: "drop (n - length (data @ chunk)) (stream_bytes (rx w1 s))
                 = drop (n - length data) (stream_bytes (rx w s))"
        using le sb rx1 by simp
      show ?thesis
        unfolding unf using IH iff tk dr by (simp del: length_append)
    qed
  qed
qed

lemma recv_all_frame:
  "recv_all s n w = (r, w') \<Longrightarrow>
     clients w' = clients w \<and> tx_down w' = tx_down w \<and> closed_socks w' = closed_socks w
     \<and> fs_fail w' = fs_fail w \<and> clock w' = clock w
     \<and> (\<forall>s'. s' \<noteq> s \<longrightarrow> rx w' s' = rx w s')
     \<and> (\<exists>evs. trace w' = trace w @ evs \<and> list_all quiet evs)"
  unfolding recv_all_def by (rule recv_all_loop_frame)

lemma recv_all_Some:
  "recv_all s n w = (Inr (Some d), w') \<Longrightarrow>
     length d = n \<and> stream_bytes (rx w s) = d @ stream_bytes (rx w' s)"
  unfolding recv_all_def using recv_all_loop_Some [of s n "[]" w d w'] by simp

lemma recv_all_no_fault:
  assumes "Fault \<notin> set (rx w s)"
  shows "Fault \<notin> set (rx (snd (recv_all s n w)) s)"
    and "n \<le> length (stream_bytes (rx w s)) \<Longrightarrow>
           fst (recv_all s n w) = Inr (Some (take n (stream_bytes (rx w s))))
           \<and> stream_bytes (rx (snd (recv_all s n w)) s) = drop n (stream_bytes (rx w s))"
    and "length (stream_bytes (rx w s)) < n \<Longrightarrow> fst (recv_all s n w) = Inr None"
  using recv_all_loop_no_fault [OF assms, of "[]" n] by (simp_all add: recv_all_def)

lemma read_frame_frame:
  assumes "read_frame conn w = (r, w')"
  shows "clients w' = clients w \<and> tx_down w' = tx_down w \<and> closed_socks w' = closed_socks w
     \<and> fs_fail w' = fs_fail w \<and> clock w' = clock w
     \<and> (\<forall>s'. s' \<noteq> conn \<longrightarrow> rx w' s' = rx w s')
     \<and> (\<exists>evs. trace w' = trace w @ evs \<and> list_all quiet evs)"
proof -
  obtain r1 w1 where h: "recv_all conn HEADER_SIZE w = (r1, w1)" by fastforce
  note f1 = recv_all_frame [OF h]
  show ?thesis
  proof (cases r1)
    case (Inl e)
    with assms h have "w' = w1" by (simp add: read_frame_def)
    with f1 show ?thesis by simp
  next
    case (Inr o1)
    show ?thesis
    proof (cases o1)
      case None
      with assms h Inr have "w' = logging INFO w1" by (simp add: read_frame_def)
      with f1 show ?thesis by auto
    next
      case (Some hdr_bytes)
      show ?thesis
      proof (cases "parse_header hdr_bytes")
        case (Inl e)
        with assms h Inr Some have "w' = w1" by (simp add: read_frame_def)
        with f1 show ?thesis by simp
      next
        case hd: (Inr q)
        obtain v t s l where q: "q = (v, t, s, l)" by (cases q) auto
        show ?thesis
        proof (cases "l > 0")
          case False
          with assms h Inr Some hd q have "w' = w1" by (simp add: read_frame_def)
          with f1 show ?thesis by simp
        next
          case True
          obtain r2 w2 where p: "recv_all conn (nat l) w1 = (r2, w2)" by fastforce
          note f2 = recv_all_frame [OF p]
          from assms h Inr Some hd q True p
          have "w' = w2 \<or> w' = logging INFO w2"
            by (auto simp: read_frame_def split: sum.splits option.splits)
          with f1 f2 show ?thesis by auto
        qed
      qed
    qed
  qed
qed

lemma read_frame_Got:
  assumes "read_frame conn w = (Inr (Got v t s l p), w')"
  shows "\<exists>hdr. length hdr = 8 \<and> parse_header hdr = Inr (v, t, s, l)
            \<and> build_header v t s l = Inr hdr \<and> int (length p) = l
            \<and> stream_bytes (rx w conn) = hdr @ p @ stream_bytes (rx w' conn)"
proof -
  obtain r1 w1 where h: "recv_all conn HEADER_SIZE w = (r1, w1)" by fastforce
  from assms h obtain hdr where r1: "r1 = Inr (Some hdr)"
    by (auto simp: read_frame_def split: sum.splits option.splits)
  from recv_all_Some [OF h [unfolded r1]]
  have len: "length hdr = 8" and sb1: "stream_bytes (rx w conn) = hdr @ stream_bytes (rx w1 conn)"
    by (simp_all add: HEADER_SIZE_def)
  from assms h r1 obtain q where q: "parse_header hdr = Inr q"
    by (auto simp: read_frame_def split: sum.splits)
  obtain v' t' s' l' where q': "q = (v', t', s', l')" by (cases q) auto
  from assms h r1 q q' have eq: "v' = v" "t' = t" "s' = s" "l' = l"
    by (auto simp: read_frame_def split: sum.splits option.splits if_splits prod.splits)
  have ph: "parse_header hdr = Inr (v, t, s, l)" using q q' eq by simp
  have bh: "build_header v t s l = Inr hdr" by (rule build_parse_header [OF ph len])
  have l0: "0 \<le> l" using parse_header_range [OF ph] by simp
  have "int (length p) = l \<and> stream_bytes (rx w1 conn) = p @ stream_bytes (rx w' conn)"
  proof (cases "l > 0")
    case False
    with assms h r1 ph have "p = []" "w' = w1" by (simp_all add: read_frame_def)
    with False l0 show ?thesis by simp
  next
    case True
    with assms h r1 ph have "recv_all conn (nat l) w1 = (Inr (Some p), w')"
      by (auto simp: read_frame_def split: sum.splits option.splits prod.splits)
    from recv_all_Some [OF this] True show ?thesis by simp
  qed
  with len ph bh sb1 show ?thesis by auto
qed

lemma read_frame_quiet:
  "clients (snd (read_frame conn w)) = clients w
   \<and> (\<exists>evs. trace (snd (read_frame conn w)) = trace w @ evs \<and> list_all quiet evs)"
  using read_frame_frame [OF prod.collapse [symmetric], of conn w] by simp

lemma read_frame_fields [simp]:
  "clients (snd (read_frame c w)) = clients w" "tx_down (snd (read_frame c w)) = tx_down w"
  "closed_socks (snd (read_frame c w)) = closed_socks w"
  using read_frame_frame [OF prod.collapse [symmetric], of c w] by simp_all

lemma read_frame_header_lost:
  assumes "Fault \<notin> set (rx w conn)" "length (stream_bytes (rx w conn)) < 8"
  shows "fst (read_frame conn w) = Inr Lost"
  using recv_all_no_fault(3) [OF assms(1), of HEADER_SIZE] assms(2)
  by (simp add: read_frame_def HEADER_SIZE_def case_prod_beta)

lemma read_frame_payload_lost:
  assumes nf: "Fault \<notin> set (rx w conn)"
    and sb: "stream_bytes (rx w conn) = hdr @ rest" and len: "length hdr = 8"
    and ph: "parse_header hdr = Inr (v, t, s, l)" and short: "int (length rest) < l"
  shows "fst (read_frame conn w) = Inr LostInPayload"
proof -
  define w1 where "w1 = snd (recv_all conn HEADER_SIZE w)"
  have "HEADER_SIZE \<le> length (stream_bytes (rx w conn))"
    using sb len by (simp add: HEADER_SIZE_def)
  from recv_all_no_fault(2) [OF nf this]
  have h: "fst (recv_all conn HEADER_SIZE w) = Inr (Some hdr)"
    and r: "stream_bytes (rx w1 conn) = rest"
    using sb len by (simp_all add: HEADER_SIZE_def w1_def)
  have nf1: "Fault \<notin> set (rx w1 conn)"
    unfolding w1_def by (rule recv_all_no_fault(1) [OF nf])
  have pos: "0 < l" using short by simp
  have "length (stream_bytes (rx w1 conn)) < nat l" using short r by simp
  from recv_all_no_fault(3) [OF nf1 this]
  have p: "fst (recv_all conn (nat l) w1) = Inr None" .
  show ?thesis
    using h p pos ph unfolding read_frame_def w1_def [symmetric]
    by (simp add: case_prod_beta w1_def [symmetric])
qed

section \<open>The branches of the dispatch\<close>

lemma send_ack_fields [simp]:
  "clients (snd (send_ack s q m w)) = clients w" "rx (snd (send_ack s q m w)) = rx w"
  "tx_down (snd (send_ack s q m w)) = tx_down w"
  "closed_socks (snd (send_ack s q m w)) = closed_socks w"
  "fs_fail (snd (send_ack s q m w)) = fs_fail w" "clock (snd (send_ack s q m w)) = clock w"
  by (simp_all add: send_ack_def case_prod_beta split: sum.split)

lemma send_ack_trace:
  "trace (snd (send_ack s q m w)) = trace w @ ack_events s q m (writable w s)"
  by (simp add: send_ack_def sock_sendall_def ack_events_def writable_def split: sum.split)

lemma send_ack_result:
  "fst (send_ack s q m w) =
     (case build_header VERSION TYPE_ACK q (int (length m)) of Inl e \<Rightarrow> Inl e | Inr hdr \<Rightarrow> Inr ())"
  by (simp add: send_ack_def sock_sendall_def split: sum.split)

lemma broadcast_loop_fields [simp]:
  "clients (broadcast_loop rs h p w) = clients w" "rx (broadcast_loop rs h p w) = rx w"
  "tx_down (broadcast_loop rs h p w) = tx_down w"
  "closed_socks (broadcast_loop rs h p w) = closed_socks w"
  "fs_fail (broadcast_loop rs h p w) = fs_fail w" "clock (broadcast_loop rs h p w) = clock w"
  by (induction rs arbitrary: w; simp add: case_prod_beta split: sum.split)+

lemma broadcast_loop_trace:
  "trace (broadcast_loop rs h p w) = trace w @ fanout_events rs (h @ p) (writable w)"
proof (induction rs arbitrary: w)
  case Nil
  then show ?case by (simp add: fanout_events_def)
next
  case (Cons r rs)
  show ?case
  proof (cases "writable w r")
    case True
    then have s: "sock_sendall r (h @ p) w = (Inr (), emit (Send r (h @ p) True) w)"
      by (simp add: sock_sendall_def writable_def)
    show ?thesis
      using Cons [of "emit (Send r (h @ p) True) w"] True by (simp add: s fanout_events_def)
  next
    case False
    then have s: "sock_sendall r (h @ p) w = (Inl OSError, emit (Send r (h @ p) False) w)"
      by (simp add: sock_sendall_def writable_def)
    show ?thesis
      using Cons [of "logging WARNING (emit RegRead (emit (Send r (h @ p) False) w))"] False
      by (simp add: s fanout_events_def)
  qed
qed

lemma broadcast_fields [simp]:
  "clients (broadcast c h p w) = clients w" "rx (broadcast c h p w) = rx w"
  "tx_down (broadcast c h p w) = tx_down w"
  "closed_socks (broadcast c h p w) = closed_socks w"
  "fs_fail (broadcast c h p w) = fs_fail w" "clock (broadcast c h p w) = clock w"
  by (simp_all add: broadcast_def Let_def)

lemma broadcast_trace:
  "trace (broadcast c h p w) = trace w @ [Acquire, RegRead, Release]
     @ fanout_events (filter (\<lambda>s. s \<noteq> c) (map fst (clients w))) (h @ p) (writable w)"
  by (simp add: broadcast_def Let_def broadcast_loop_trace)

lemma writable_more [simp]:
  "writable (snd (send_ack s q m w)) = writable w"
  "writable (broadcast c h p w) = writable w"
  by (simp_all add: writable_def fun_eq_iff)

lemma handle_connect_fields [simp]:
  "rx (snd (handle_connect c a s p w)) = rx w"
  "tx_down (snd (handle_connect c a s p w)) = tx_down w"
  "closed_socks (snd (handle_connect c a s p w)) = closed_socks w"
  "fs_fail (snd (handle_connect c a s p w)) = fs_fail w"
  "clock (snd (handle_connect c a s p w)) = clock w"
  by (simp_all add: handle_connect_def Let_def case_prod_beta split: sum.split)

lemma handle_msg_fields [simp]:
  "clients (snd (handle_msg c nm v s l p w)) = clients w"
  "rx (snd (handle_msg c nm v s l p w)) = rx w"
  "tx_down (snd (handle_msg c nm v s l p w)) = tx_down w"
  "closed_socks (snd (handle_msg c nm v s l p w)) = closed_socks w"
  "fs_fail (snd (handle_msg c nm v s l p w)) = fs_fail w"
  "clock (snd (handle_msg c nm v s l p w)) = clock w"
  by (simp_all add: handle_msg_def Let_def case_prod_beta split: sum.split)

lemma handle_list_fields [simp]:
  "clients (snd (handle_list c nm s w)) = clients w"
  "rx (snd (handle_list c nm s w)) = rx w"
  "tx_down (snd (handle_list c nm s w)) = tx_down w"
  "closed_socks (snd (handle_list c nm s w)) = closed_socks w"
  "fs_fail (snd (handle_list c nm s w)) = fs_fail w"
  "clock (snd (handle_list c nm s w)) = clock w"
  by (simp_all add: handle_list_def Let_def case_prod_beta split: sum.split)

lemma handle_file_fields [simp]:
  "clients (snd (handle_file c nm s p w)) = clients w"
  "rx (snd (handle_file c nm s p w)) = rx w"
  "tx_down (snd (handle_file c nm s p w)) = tx_down w"
  "closed_socks (snd (handle_file c nm s p w)) = closed_socks w"
  "fs_fail (snd (handle_file c nm s p w)) = fs_fail w"
  "clock (snd (handle_file c nm s p w)) = clock w"
  by (simp_all add: handle_file_def Let_def case_prod_beta split: sum.split)

lemma handle_disconnect_fields [simp]:
  "clients (snd (handle_disconnect c s w)) = clients w"
  "rx (snd (handle_disconnect c s w)) = rx w"
  "tx_down (snd (handle_disconnect c s w)) = tx_down w"
  "closed_socks (snd (handle_disconnect c s w)) = closed_socks w"
  "fs_fail (snd (handle_disconnect c s w)) = fs_fail w"
  "clock (snd (handle_disconnect c s w)) = clock w"
  by (simp_all add: handle_disconnect_def Let_def case_prod_beta split: sum.split)

lemma handle_frame_fields [simp]:
  "rx (snd (handle_frame c a nm v t s l p w)) = rx w"
  "tx_down (snd (handle_frame c a nm v t s l p w)) = tx_down w"
  "closed_socks (snd (handle_frame c a nm v t s l p w)) = closed_socks w"
  "fs_fail (snd (handle_frame c a nm v t s l p w)) = fs_fail w"
  "clock (snd (handle_frame c a nm v t s l p w)) = clock w"
  by (simp_all add: handle_frame_def Let_def)

lemma handle_connect_clients:
  "utf8_decode Ignore p = Inr nm \<Longrightarrow>
     clients (snd (handle_connect c a s p w))
       = AList.update c \<lparr>info_name = nm, info_addr = a\<rparr> (clients w)"
  by (simp add: handle_connect_def Let_def case_prod_beta split: sum.split)

lemma handle_connect_trace:
  "trace (snd (handle_connect c a s p w)) = trace w @ [Acquire, RegStore c, Release, Log INFO]
     @ ack_events c s (bytes_lit ''CONNECTED'') (writable w c)"
  by (simp add: handle_connect_def Let_def case_prod_beta send_ack_trace split: sum.split)

lemma handle_connect_result:
  "utf8_decode Ignore p = Inr nm \<Longrightarrow>
   build_header VERSION TYPE_ACK s (int (length (bytes_lit ''CONNECTED''))) = Inr ack \<Longrightarrow>
     fst (handle_connect c a s p w) = Inr (Continue (Some nm))"
  by (simp add: handle_connect_def Let_def case_prod_beta send_ack_result split: sum.split)

lemma handle_msg_trace:
  "build_header v TYPE_MSG s l = Inr hdr \<Longrightarrow>
     trace (snd (handle_msg c nm v s l p w)) = trace w @ [Log INFO, Acquire, RegRead, Release]
       @ fanout_events (filter (\<lambda>r. r \<noteq> c) (map fst (clients w))) (hdr @ p) (writable w)
       @ ack_events c s (bytes_lit ''MSG_RECEIVED'') (writable w c)"
  by (simp add: handle_msg_def Let_def case_prod_beta send_ack_trace broadcast_trace split: sum.split)

lemma handle_msg_result:
  "build_header v TYPE_MSG s l = Inr hdr \<Longrightarrow>
   build_header VERSION TYPE_ACK s (int (length (bytes_lit ''MSG_RECEIVED''))) = Inr ack \<Longrightarrow>
     fst (handle_msg c nm v s l p w) = Inr (Continue nm)"
  by (simp add: handle_msg_def Let_def case_prod_beta send_ack_result split: sum.split)

lemma handle_list_trace:
  assumes "utf8_encode (join (lit '';'')
             (filter (\<lambda>n. n \<noteq> []) (map (\<lambda>(s, info). info_name info) (clients w)))) = Inr lp"
  shows "trace (snd (handle_list c nm s w)) = trace w @ [Acquire, RegRead, Release]
     @ (case build_header VERSION TYPE_LIST s (int (length lp)) of
          Inl e \<Rightarrow> []
        | Inr hdr \<Rightarrow> [Send c (hdr @ lp) (writable w c)])"
    and "fst (handle_list c nm s w)
     = (case build_header VERSION TYPE_LIST s (int (length lp)) of
          Inl e \<Rightarrow> Inl e
        | Inr hdr \<Rightarrow> if writable w c then Inr (Continue nm) else Inl OSError)"
  using assms
  by (simp_all add: handle_list_def Let_def sock_sendall_def writable_def split: sum.split)

lemma handle_iteration_Got:
  "read_frame conn w = (Inr (Got v t s l p), w1) \<Longrightarrow>
     handle_iteration conn addr name w = handle_frame conn addr name v t s l p w1"
  by (simp add: handle_iteration_def)

section \<open>The loop ends\<close>

lemma handle_iteration_consumes:
  assumes "handle_iteration conn addr name w = (Inr (Continue n'), w')"
  shows "length (stream_bytes (rx w' conn)) < length (stream_bytes (rx w conn))"
proof -
  obtain r w1 where rf: "read_frame conn w = (r, w1)" by fastforce
  with assms obtain v t s l p where r: "r = Inr (Got v t s l p)"
    and hf: "handle_frame conn addr name v t s l p w1 = (Inr (Continue n'), w')"
    by (auto simp: handle_iteration_def split: sum.splits read_result.splits)
  from read_frame_Got [OF rf [unfolded r]] obtain hdr where
    "length hdr = 8" "stream_bytes (rx w conn) = hdr @ p @ stream_bytes (rx w1 conn)" by blast
  moreover have "rx w' = rx w1" using handle_frame_fields(1) [of conn addr name v t s l p w1] hf by simp
  ultimately show ?thesis by simp
qed

termination handle_loop
proof (relation "measure (\<lambda>(conn, addr, name, w). length (stream_bytes (rx w conn)))", goal_cases)
  case 1
  show ?case by simp
next
  case (2 conn addr name w x w1 fl name')
  then have "handle_iteration conn addr name w = (Inr (Continue name'), w1)" by simp
  from handle_iteration_consumes [OF this] show ?case by simp
qed

declare handle_loop.simps [simp del]

lemma handle_loop_lost:
  assumes "fst (read_frame conn w) = Inr Lost \<or> fst (read_frame conn w) = Inr LostInPayload"
  shows "handle_loop conn addr name w = (None, snd (read_frame conn w))"
  using assms
  by (subst handle_loop.simps) (auto simp: handle_iteration_def case_prod_beta)

section \<open>What a run adds to the trace\<close>

lemma lock_run_append:
  "lock_run ok h (a @ b) = (case lock_run ok h a of None \<Rightarrow> None | Some h' \<Rightarrow> lock_run ok h' b)"
  by (induction a arbitrary: h) (simp_all split: event.split)

lemma lock_run_weaken:
  "(\<And>e. ok e \<Longrightarrow> ok' e) \<Longrightarrow> lock_run ok h evs = Some h' \<Longrightarrow> lock_run ok' h evs = Some h'"
  by (induction evs arbitrary: h) (auto split: event.splits if_splits)

lemma orderly_Nil [simp]: "orderly []"
  by (simp add: orderly_def)

lemma orderly_append: "orderly a \<Longrightarrow> orderly b \<Longrightarrow> orderly (a @ b)"
  by (simp add: orderly_def lock_run_append)

lemma lock_run_free:
  "list_all (\<lambda>e. e \<noteq> Acquire \<and> e \<noteq> Release) evs \<Longrightarrow> lock_run ok False evs = Some False"
  by (induction evs) (auto split: event.splits)

lemma orderly_quiet: "list_all quiet evs \<Longrightarrow> orderly evs"
proof -
  assume q: "list_all quiet evs"
  then have "list_all (\<lambda>e. e \<noteq> Acquire \<and> e \<noteq> Release) evs"
    and "list_all (\<lambda>e. \<not> is_close e \<and> \<not> is_delete e) evs"
    by (induction evs) (auto elim: quiet.elims)
  then show ?thesis using quiet_no_sends [OF q] by (simp add: orderly_def lock_run_free)
qed

lemma orderly_ack: "orderly (ack_events s q m ok)"
proof (cases "build_header VERSION TYPE_ACK q (int (length m))")
  case (Inl e)
  then show ?thesis by (simp add: ack_events_def)
next
  case (Inr hdr)
  then show ?thesis
    using wf_frame_built [OF Inr] by (simp add: ack_events_def orderly_def)
qed

lemma orderly_fanout: "wf_frame d \<Longrightarrow> orderly (fanout_events rs d ok)"
proof (induction rs)
  case Nil
  show ?case by (simp add: fanout_events_def)
next
  case (Cons r rs)
  have "orderly (if ok r then [Send r d True] else [Send r d False, RegRead, Log WARNING])"
    using Cons.prems by (simp add: orderly_def)
  from orderly_append [OF this Cons.IH [OF Cons.prems]] show ?case
    by (simp add: fanout_events_def)
qed

lemma orderly_basic [simp]:
  "orderly [Log l]" "orderly [Acquire, RegRead, Release]" "orderly [Acquire, RegStore c, Release]"
  "orderly [FileAppend f d ok]"
  by (simp_all add: orderly_def)

lemma step_okI: "trace w' = trace w @ evs \<Longrightarrow> orderly evs \<Longrightarrow> step_ok w w'"
  unfolding step_ok_def by blast

lemma step_ok_refl [simp]: "step_ok w w"
  unfolding step_ok_def by simp

lemma step_ok_trans: "step_ok w w1 \<Longrightarrow> step_ok w1 w2 \<Longrightarrow> step_ok w w2"
  unfolding step_ok_def using orderly_append by fastforce

lemma step_ok_logging [simp]: "step_ok w (logging l w)"
  by (rule step_okI [of _ _ "[Log l]"]) simp_all

lemma step_ok_send_ack [simp]: "step_ok w (snd (send_ack s q m w))"
  by (rule step_okI [OF send_ack_trace orderly_ack])

lemma handle_connect_ok: "step_ok w (snd (handle_connect c a s p w))"
proof (rule step_okI [OF handle_connect_trace])
  have "orderly ([Acquire, RegStore c, Release] @ [Log INFO])"
    by (rule orderly_append) simp_all
  from orderly_append [OF this orderly_ack]
  show "orderly ([Acquire, RegStore c, Release, Log INFO]
     @ ack_events c s (bytes_lit ''CONNECTED'') (writable w c))" by simp
qed

lemma handle_msg_ok:
  assumes "l = int (length p)"
  shows "step_ok w (snd (handle_msg c nm v s l p w))"
proof (cases "build_header v TYPE_MSG s l")
  case (Inl e)
  then have "snd (handle_msg c nm v s l p w) = logging INFO w"
    by (simp add: handle_msg_def)
  then show ?thesis by simp
next
  case (Inr hdr)
  have wf: "wf_frame (hdr @ p)" using Inr assms wf_frame_built by blast
  have "orderly ([Log INFO] @ [Acquire, RegRead, Release])"
    by (rule orderly_append) simp_all
  from orderly_append [OF orderly_append [OF this orderly_fanout [OF wf]] orderly_ack]
  have "orderly ([Log INFO, Acquire, RegRead, Release]
       @ fanout_events (filter (\<lambda>r. r \<noteq> c) (map fst (clients w))) (hdr @ p) (writable w)
       @ ack_events c s (bytes_lit ''MSG_RECEIVED'') (writable w c))" by simp
  then show ?thesis by (rule step_okI [OF handle_msg_trace [OF Inr]])
qed

lemma handle_list_ok: "step_ok w (snd (handle_list c nm s w))"
proof (cases "utf8_encode (join (lit '';'')
     (filter (\<lambda>n. n \<noteq> []) (map (\<lambda>(s, info). info_name info) (clients w))))")
  case (Inl e)
  then have "trace (snd (handle_list c nm s w)) = trace w @ [Acquire, RegRead, Release]"
    by (simp add: handle_list_def Let_def)
  then show ?thesis by (rule step_okI) simp
next
  case (Inr lp)
  have "orderly (case build_header VERSION TYPE_LIST s (int (length lp)) of
          Inl e \<Rightarrow> []
        | Inr hdr \<Rightarrow> [Send c (hdr @ lp) (writable w c)])"
    using wf_frame_built [of VERSION TYPE_LIST s lp]
    by (cases "build_header VERSION TYPE_LIST s (int (length lp))") (simp_all add: orderly_def)
  from orderly_append [OF orderly_basic(2) this]
  show ?thesis by (rule step_okI [OF handle_list_trace(1) [OF Inr]])
qed

lemma step_ok_file_append [simp]: "step_ok w (snd (file_append f d w))"
  by (rule step_okI [of _ _ "[FileAppend f d (f \<notin> fs_fail w)]"]) simp_all

lemma handle_file_ok: "step_ok w (snd (handle_file c nm s p w))"
proof -
  let ?w1 = "snd (file_append (file_name (clock w) s) p w)"
  have a: "step_ok w ?w1" by simp
  have b: "step_ok w (logging INFO ?w1)" by (rule step_ok_trans [OF a]) simp
  have c: "step_ok w (snd (send_ack c s m (logging INFO ?w1)))" for m
    by (rule step_ok_trans [OF b]) simp
  show ?thesis
    using a b c by (simp add: handle_file_def Let_def case_prod_beta split: sum.split)
qed

lemma handle_disconnect_ok: "step_ok w (snd (handle_disconnect c s w))"
proof -
  have "step_ok w (snd (send_ack c s (bytes_lit ''BYE'') (logging INFO w)))"
    by (rule step_ok_trans [of _ "logging INFO w"]) simp_all
  then show ?thesis by (simp add: handle_disconnect_def case_prod_beta split: sum.split)
qed

lemma handle_frame_ok:
  assumes "l = int (length p)"
  shows "step_ok w (snd (handle_frame c a nm v t s l p w))"
proof -
  have "step_ok (logging INFO w) (snd (handle_frame c a nm v t s l p w))"
    using handle_connect_ok handle_msg_ok [OF assms] handle_list_ok handle_file_ok
      handle_disconnect_ok
    by (simp add: handle_frame_def Let_def)
  then show ?thesis by (rule step_ok_trans [OF step_ok_logging])
qed

lemma read_frame_ok: "step_ok w (snd (read_frame c w))"
  using read_frame_quiet [of c w] orderly_quiet unfolding step_ok_def by blast

lemma handle_iteration_ok: "step_ok w (snd (handle_iteration c a nm w))"
proof (cases "read_frame c w")
  case (Pair r w1)
  then have w1: "w1 = snd (read_frame c w)" by simp
  show ?thesis
  proof (cases r)
    case (Inl e)
    with Pair show ?thesis using read_frame_ok [of w c] by (simp add: handle_iteration_def)
  next
    case (Inr rr)
    show ?thesis
    proof (cases rr)
      case (Got v t s l p)
      from read_frame_Got [OF Pair [unfolded Inr Got]] have "l = int (length p)" by auto
      from handle_frame_ok [OF this, of w1 c a nm v t s]
      have "step_ok w1 (snd (handle_iteration c a nm w))"
        using Pair Inr Got by (simp add: handle_iteration_def)
      with read_frame_ok [of w c] show ?thesis unfolding w1 by (rule step_ok_trans)
    qed (use Pair Inr read_frame_ok [of w c] in \<open>simp_all add: handle_iteration_def\<close>)
  qed
qed

lemma handle_loop_ok: "step_ok w (snd (handle_loop c a nm w))"
proof (induction c a nm w rule: handle_loop.induct)
  case (1 conn addr name w)
  obtain r w1 where it: "handle_iteration conn addr name w = (r, w1)" by fastforce
  then have ok1: "step_ok w w1" using handle_iteration_ok [of w conn addr name] by simp
  show ?case
  proof (cases r)
    case (Inl e)
    with it ok1 show ?thesis by (subst handle_loop.simps) simp
  next
    case (Inr fl)
    show ?thesis
    proof (cases fl)
      case Break
      with it Inr ok1 show ?thesis by (subst handle_loop.simps) simp
    next
      case (Continue name')
      from "1.IH" [OF it [symmetric] Inr Continue]
      have "step_ok w1 (snd (handle_loop conn addr name' w1))" .
      with ok1 have "step_ok w (snd (handle_loop conn addr name' w1))" by (rule step_ok_trans)
      then show ?thesis using it Inr Continue by (subst handle_loop.simps) simp
    qed
  qed
qed

section \<open>What a run leaves in the dictionary\<close>

lemma unregister_clients:
  "clients (unregister c w) =
     (if c \<in> fst ` set (clients w) then AList.delete c (clients w) else clients w)"
  by (simp add: unregister_def Let_def)

lemma unregister_events:
  "trace (unregister c w) = trace w @
     (if c \<in> fst ` set (clients w) then [Acquire, RegRead, RegRead, Log INFO, RegDelete c, Release]
      else [Acquire, RegRead, Release])"
  by (simp add: unregister_def Let_def)

lemma delete_absent: "c \<notin> fst ` set xs \<Longrightarrow> AList.delete c xs = xs"
  by (induction xs) (auto simp: AList.delete_eq)

lemma delete_gone: "c \<notin> fst ` set (AList.delete c xs)"
  by (induction xs) (auto simp: AList.delete_eq)

lemma handle_frame_clients:
  "AList.delete c (clients (snd (handle_frame c a nm v t s l p w))) = AList.delete c (clients w)"
proof -
  obtain n where "utf8_decode Ignore p = Inr n" using utf8_decode_ignore_total by blast
  from handle_connect_clients [OF this, of c a s "logging INFO w"]
  show ?thesis by (simp add: handle_frame_def Let_def delete_update_same)
qed

lemma handle_iteration_fields:
  "AList.delete c (clients (snd (handle_iteration c a nm w))) = AList.delete c (clients w)"
  "tx_down (snd (handle_iteration c a nm w)) = tx_down w"
  "closed_socks (snd (handle_iteration c a nm w)) = closed_socks w"
  by (simp_all add: handle_iteration_def case_prod_beta handle_frame_clients
      split: sum.split read_result.split)

lemma handle_loop_fields:
  "AList.delete c (clients (snd (handle_loop c a nm w))) = AList.delete c (clients w)
   \<and> tx_down (snd (handle_loop c a nm w)) = tx_down w
   \<and> closed_socks (snd (handle_loop c a nm w)) = closed_socks w"
proof (induction c a nm w rule: handle_loop.induct)
  case (1 conn addr name w)
  obtain r w1 where it: "handle_iteration conn addr name w = (r, w1)" by fastforce
  then have w1: "w1 = snd (handle_iteration conn addr name w)" by simp
  note f = handle_iteration_fields [of conn addr name w, folded w1]
  show ?case
  proof (cases r)
    case (Inl e)
    with it f show ?thesis by (subst (1 2 3) handle_loop.simps) simp
  next
    case (Inr fl)
    show ?thesis
    proof (cases fl)
      case Break
      with it Inr f show ?thesis by (subst (1 2 3) handle_loop.simps) simp
    next
      case (Continue name')
      from "1.IH" [OF it [symmetric] Inr Continue] f
      show ?thesis using it Inr Continue by (subst (1 2 3) handle_loop.simps) simp
    qed
  qed
qed

lemma handle_client_events:
  "\<exists>pre del. events_since w (handle_client conn addr w)
       = pre @ [Acquire, RegRead] @ del @ [Release, Close conn, Log INFO]
     \<and> orderly pre \<and> (del = [] \<or> del = [RegRead, Log INFO, RegDelete conn])"
proof -
  obtain exc w1 where lp: "handle_loop conn addr None (logging INFO w) = (exc, w1)" by fastforce
  then have w1: "w1 = snd (handle_loop conn addr None (logging INFO w))" by simp
  from handle_loop_ok [of "logging INFO w" conn addr None] obtain evs where
    evs: "trace w1 = trace w @ [Log INFO] @ evs" "orderly evs"
    unfolding w1 step_ok_def by auto
  define w2 where "w2 = (case exc of None \<Rightarrow> w1 | Some e \<Rightarrow> logging ERROR w1)"
  define xl where "xl = (case exc of None \<Rightarrow> [] | Some e \<Rightarrow> [Log ERROR])"
  define pre where "pre = [Log INFO] @ evs @ xl"
  define del where "del = (if conn \<in> fst ` set (clients w2) then [RegRead, Log INFO, RegDelete conn] else [])"
  have t2: "trace w2 = trace w @ pre"
    unfolding w2_def xl_def pre_def using evs(1) by (cases exc) simp_all
  have "orderly xl" unfolding xl_def by (cases exc) simp_all
  then have op: "orderly pre"
    unfolding pre_def by (intro orderly_append evs(2) orderly_basic)
  have hc: "handle_client conn addr w = logging INFO (sock_close conn (unregister conn w2))"
    unfolding handle_client_def lp w2_def by (simp add: Let_def)
  have "trace (handle_client conn addr w)
      = trace w @ pre @ [Acquire, RegRead] @ del @ [Release, Close conn, Log INFO]"
    unfolding hc del_def by (simp add: unregister_events t2)
  from events_since_append [OF this] op show ?thesis unfolding del_def by auto
qed

lemma handle_client_state:
  "clients (handle_client conn addr w) = AList.delete conn (clients w)
   \<and> closed_socks (handle_client conn addr w) = insert conn (closed_socks w)"
proof -
  obtain exc w1 where lp: "handle_loop conn addr None (logging INFO w) = (exc, w1)" by fastforce
  then have w1: "w1 = snd (handle_loop conn addr None (logging INFO w))" by simp
  define w2 where "w2 = (case exc of None \<Rightarrow> w1 | Some e \<Rightarrow> logging ERROR w1)"
  from handle_loop_fields [of conn addr None "logging INFO w"]
  have f: "AList.delete conn (clients w2) = AList.delete conn (clients w)"
    "closed_socks w2 = closed_socks w"
    unfolding w2_def w1 by (cases exc; simp)+
  have hc: "handle_client conn addr w = logging INFO (sock_close conn (unregister conn w2))"
    unfolding handle_client_def lp w2_def by (simp add: Let_def)
  have "clients (unregister conn w2) = AList.delete conn (clients w2)"
    by (simp add: unregister_clients delete_absent)
  moreover have "closed_socks (unregister conn w2) = closed_socks w2"
    by (simp add: unregister_def Let_def)
  ultimately show ?thesis unfolding hc using f by simp
qed

lemma list_all_update:
  "P (k, v) \<Longrightarrow> list_all P xs \<Longrightarrow> list_all P (AList.update k v xs)"
  by (induction xs) auto

lemma list_all_delete: "list_all P xs \<Longrightarrow> list_all P (AList.delete k xs)"
  by (induction xs) (auto simp: AList.delete_eq)

lemma registry_names_scalar:
  "registry_ok w \<Longrightarrow>
     list_all (list_all scalar_value)
       (filter (\<lambda>n. n \<noteq> []) (map (\<lambda>(s, info). info_name info) (clients w)))"
  unfolding registry_ok_def by (induction "clients w" arbitrary: w) (auto simp: list_all_iff)

lemma registry_ok_connect: "registry_ok w \<Longrightarrow> registry_ok (snd (handle_connect c a s p w))"
proof -
  assume ok: "registry_ok w"
  obtain n where n: "utf8_decode Ignore p = Inr n" using utf8_decode_ignore_total by blast
  then have "list_all scalar_value n" unfolding utf8_decode_def by (rule utf8_dec_scalar)
  with ok show ?thesis
    unfolding registry_ok_def handle_connect_clients [OF n] by (simp add: list_all_update)
qed

lemma registry_ok_frame:
  "registry_ok w \<Longrightarrow> registry_ok (snd (handle_frame c a nm v t s l p w))"
  using registry_ok_connect [of "logging INFO w" c a s p]
  by (simp add: handle_frame_def Let_def registry_ok_def)

lemma registry_ok_iteration:
  "registry_ok w \<Longrightarrow> registry_ok (snd (handle_iteration c a nm w))"
proof -
  assume ok: "registry_ok w"
  then have "registry_ok (snd (read_frame c w))" by (simp add: registry_ok_def)
  from registry_ok_frame [OF this] this show ?thesis
    by (simp add: handle_iteration_def case_prod_beta split: sum.split read_result.split)
qed

lemma registry_ok_loop: "registry_ok w \<Longrightarrow> registry_ok (snd (handle_loop c a nm w))"
proof (induction c a nm w rule: handle_loop.induct)
  case (1 conn addr name w)
  obtain r w1 where it: "handle_iteration conn addr name w = (r, w1)" by fastforce
  then have ok1: "registry_ok w1" using registry_ok_iteration [OF "1.prems", of conn addr name] by simp
  show ?case
  proof (cases r)
    case (Inl e)
    with it ok1 show ?thesis by (subst handle_loop.simps) simp
  next
    case (Inr fl)
    show ?thesis
    proof (cases fl)
      case Break
      with it Inr ok1 show ?thesis by (subst handle_loop.simps) simp
    next
      case (Continue name')
      from "1.IH" [OF it [symmetric] Inr Continue ok1]
      show ?thesis using it Inr Continue by (subst handle_loop.simps) simp
    qed
  qed
qed

lemma registry_ok_client: "registry_ok w \<Longrightarrow> registry_ok (handle_client c a w)"
  using handle_client_state [of c a w] by (simp add: registry_ok_def list_all_delete)

lemma registry_ok_empty: "registry_ok (quiet_world [])"
  by (simp add: registry_ok_def quiet_world_def)

section \<open>What the reader does with every stream\<close>

lemma read_frame_yields:
  assumes nf: "Fault \<notin> set (rx w conn)"
    and sb: "stream_bytes (rx w conn) = hdr @ p @ rest" and len: "length hdr = 8"
    and ph: "parse_header hdr = Inr (v, t, s, l)" and lp: "int (length p) = l"
  shows "fst (read_frame conn w) = Inr (Got v t s l p)"
    and "stream_bytes (rx (snd (read_frame conn w)) conn) = rest"
    and "Fault \<notin> set (rx (snd (read_frame conn w)) conn)"
proof -
  define w1 where "w1 = snd (recv_all conn HEADER_SIZE w)"
  have "HEADER_SIZE \<le> length (stream_bytes (rx w conn))"
    using sb len by (simp add: HEADER_SIZE_def)
  from recv_all_no_fault(2) [OF nf this]
  have h: "fst (recv_all conn HEADER_SIZE w) = Inr (Some hdr)"
    and r: "stream_bytes (rx w1 conn) = p @ rest"
    using sb len by (simp_all add: HEADER_SIZE_def w1_def)
  have nf1: "Fault \<notin> set (rx w1 conn)"
    unfolding w1_def by (rule recv_all_no_fault(1) [OF nf])
  have all: "fst (read_frame conn w) = Inr (Got v t s l p)
      \<and> stream_bytes (rx (snd (read_frame conn w)) conn) = rest
      \<and> Fault \<notin> set (rx (snd (read_frame conn w)) conn)"
  proof (cases "0 < l")
    case False
    with lp have "length p = 0" by linarith
    with lp have "p = []" "l = 0" by simp_all
    then show ?thesis
      using h ph r nf1 unfolding read_frame_def w1_def [symmetric]
      by (simp add: case_prod_beta w1_def [symmetric])
  next
    case True
    define w2 where "w2 = snd (recv_all conn (nat l) w1)"
    have "nat l \<le> length (stream_bytes (rx w1 conn))" using r lp by auto
    from recv_all_no_fault(2) [OF nf1 this]
    have q: "fst (recv_all conn (nat l) w1) = Inr (Some p)"
      and r2: "stream_bytes (rx w2 conn) = rest"
      using r lp by (auto simp: w2_def)
    have nf2: "Fault \<notin> set (rx w2 conn)"
      unfolding w2_def by (rule recv_all_no_fault(1) [OF nf1])
    show ?thesis
      using h q True ph r2 nf2 unfolding read_frame_def w1_def [symmetric]
      by (simp add: case_prod_beta w1_def [symmetric] w2_def [symmetric])
  qed
  show "fst (read_frame conn w) = Inr (Got v t s l p)"
    and "stream_bytes (rx (snd (read_frame conn w)) conn) = rest"
    and "Fault \<notin> set (rx (snd (read_frame conn w)) conn)"
    using all by simp_all
qed

lemma handle_loop_error:
  assumes "fst (read_frame conn w) = Inl e"
  shows "handle_loop conn addr name w = (Some e, snd (read_frame conn w))"
  using assms
  by (subst handle_loop.simps) (auto simp: handle_iteration_def case_prod_beta)

lemma recv_items_prefix:
  "Fault \<notin> set pre \<Longrightarrow> stream_bytes pre \<noteq> [] \<Longrightarrow>
     \<exists>chunk pre'. recv_items n (pre @ post) = (Inr chunk, pre' @ post) \<and> Fault \<notin> set pre'
        \<and> stream_bytes pre = chunk @ stream_bytes pre' \<and> length chunk \<le> n
        \<and> (0 < n \<longrightarrow> chunk \<noteq> [])"
proof (induction n pre rule: recv_items.induct)
  case (1 n)
  then show ?case by simp
next
  case (2 n rest)
  then show ?case by simp
next
  case (3 n bs rest)
  show ?case
  proof (cases "bs = []")
    case True
    with 3 show ?thesis by simp
  next
    case False
    show ?thesis
    proof (cases "length bs \<le> n")
      case True
      with False 3(2) show ?thesis by (intro exI [of _ bs] exI [of _ rest]) simp
    next
      case big: False
      with False 3(2) show ?thesis
        by (intro exI [of _ "take n bs"] exI [of _ "Seg (drop n bs) # rest"]) auto
    qed
  qed
qed

lemma recv_all_loop_prefix:
  "rx w s = pre @ post \<Longrightarrow> Fault \<notin> set pre \<Longrightarrow> length d \<le> n \<Longrightarrow>
   n - length d \<le> length (stream_bytes pre) \<Longrightarrow>
     \<exists>pre'. rx (snd (recv_all_loop s n d w)) s = pre' @ post \<and> Fault \<notin> set pre'
        \<and> fst (recv_all_loop s n d w) = Inr (Some (d @ take (n - length d) (stream_bytes pre)))
        \<and> stream_bytes pre' = drop (n - length d) (stream_bytes pre)"
proof (induction s n d w arbitrary: pre rule: recv_all_loop.induct)
  case (1 s n data w)
  show ?case
  proof (cases "length data < n")
    case False
    with "1.prems" show ?thesis
      by (intro exI [of _ pre]) (simp add: recv_all_loop.simps)
  next
    case True
    with "1.prems"(4) have ne: "stream_bytes pre \<noteq> []" by auto
    from recv_items_prefix [OF "1.prems"(2) ne, of "n - length data" post] True
    obtain chunk pre1 where ri: "recv_items (n - length data) (pre @ post) = (Inr chunk, pre1 @ post)"
      and nf: "Fault \<notin> set pre1" and sb: "stream_bytes pre = chunk @ stream_bytes pre1"
      and le: "length chunk \<le> n - length data" and cne: "chunk \<noteq> []"
      by auto
    define w1 where "w1 = snd (sock_recv s (n - length data) w)"
    have sr: "sock_recv s (n - length data) w = (Inr chunk, w1)"
      unfolding w1_def using ri "1.prems"(1) by (simp add: prod_eq_iff)
    have rx1: "rx w1 s = pre1 @ post" unfolding w1_def using ri "1.prems"(1) by simp
    have unf: "recv_all_loop s n data w = recv_all_loop s n (data @ chunk) w1"
      using sr True cne by (subst recv_all_loop.simps) simp
    have len: "length (data @ chunk) \<le> n" using le True by simp
    have need: "n - length (data @ chunk) \<le> length (stream_bytes pre1)"
      using "1.prems"(4) sb le by auto
    from "1.IH" [OF True sr [symmetric] refl cne rx1 nf len need]
    obtain pre' where IH: "rx (snd (recv_all_loop s n (data @ chunk) w1)) s = pre' @ post"
      "Fault \<notin> set pre'"
      "fst (recv_all_loop s n (data @ chunk) w1)
         = Inr (Some ((data @ chunk) @ take (n - length (data @ chunk)) (stream_bytes pre1)))"
      "stream_bytes pre' = drop (n - length (data @ chunk)) (stream_bytes pre1)"
      by blast
    have tk: "chunk @ take (n - length (data @ chunk)) (stream_bytes pre1)
                 = take (n - length data) (stream_bytes pre)"
      using le sb by simp
    have dr: "drop (n - length (data @ chunk)) (stream_bytes pre1)
                 = drop (n - length data) (stream_bytes pre)"
      using le sb by simp
    show ?thesis
      unfolding unf using IH tk dr by (intro exI [of _ pre']) (simp del: length_append)
  qed
qed

lemma recv_all_prefix:
  assumes "rx w s = pre @ post" "Fault \<notin> set pre" "n \<le> length (stream_bytes pre)"
  shows "\<exists>pre'. rx (snd (recv_all s n w)) s = pre' @ post \<and> Fault \<notin> set pre'
        \<and> fst (recv_all s n w) = Inr (Some (take n (stream_bytes pre)))
        \<and> stream_bytes pre' = drop n (stream_bytes pre)"
  using recv_all_loop_prefix [OF assms(1,2), of "[]" n] assms(3) by (simp add: recv_all_def)

lemma recv_items_fault:
  "Fault \<notin> set pre \<Longrightarrow> stream_bytes pre = [] \<Longrightarrow>
     recv_items n (pre @ Fault # post) = (Inl OSError, post)"
  by (induction n pre rule: recv_items.induct) auto

lemma recv_all_loop_fault:
  "rx w s = pre @ Fault # post \<Longrightarrow> Fault \<notin> set pre \<Longrightarrow> length d \<le> n \<Longrightarrow>
   length (stream_bytes pre) < n - length d \<Longrightarrow>
     fst (recv_all_loop s n d w) = Inl OSError"
proof (induction s n d w arbitrary: pre rule: recv_all_loop.induct)
  case (1 s n data w)
  from "1.prems"(4) have True: "length data < n" by simp
  show ?case
  proof (cases "stream_bytes pre = []")
    case True
    from recv_items_fault [OF "1.prems"(2) True, of "n - length data" post] "1.prems"(1)
    have "fst (sock_recv s (n - length data) w) = Inl OSError" by simp
    then show ?thesis
      using \<open>length data < n\<close>
      by (subst recv_all_loop.simps) (simp add: case_prod_beta)
  next
    case ne: False
    from recv_items_prefix [OF "1.prems"(2) ne, of "n - length data" "Fault # post"] True
    obtain chunk pre1 where
      ri: "recv_items (n - length data) (pre @ Fault # post) = (Inr chunk, pre1 @ Fault # post)"
      and nf: "Fault \<notin> set pre1" and sb: "stream_bytes pre = chunk @ stream_bytes pre1"
      and le: "length chunk \<le> n - length data" and cne: "chunk \<noteq> []"
      by auto
    define w1 where "w1 = snd (sock_recv s (n - length data) w)"
    have sr: "sock_recv s (n - length data) w = (Inr chunk, w1)"
      unfolding w1_def using ri "1.prems"(1) by (simp add: prod_eq_iff)
    have rx1: "rx w1 s = pre1 @ Fault # post" unfolding w1_def using ri "1.prems"(1) by simp
    have unf: "recv_all_loop s n data w = recv_all_loop s n (data @ chunk) w1"
      using sr True cne by (subst recv_all_loop.simps) simp
    have len: "length (data @ chunk) \<le> n" using le True by simp
    have need: "length (stream_bytes pre1) < n - length (data @ chunk)"
      using "1.prems"(4) sb le by auto
    from "1.IH" [OF True sr [symmetric] refl cne rx1 nf len need]
    show ?thesis unfolding unf .
  qed
qed

lemma recv_all_fault:
  assumes "rx w s = pre @ Fault # post" "Fault \<notin> set pre" "length (stream_bytes pre) < n"
  shows "fst (recv_all s n w) = Inl OSError"
  using recv_all_loop_fault [OF assms(1,2), of "[]" n] assms(3) by (simp add: recv_all_def)

lemma read_frame_yields_prefix:
  assumes rx: "rx w conn = pre @ post" and nf: "Fault \<notin> set pre"
    and sb: "stream_bytes pre = hdr @ p @ rest" and len: "length hdr = 8"
    and ph: "parse_header hdr = Inr (v, t, s, l)" and lp: "int (length p) = l"
  shows "fst (read_frame conn w) = Inr (Got v t s l p)
     \<and> (\<exists>pre'. rx (snd (read_frame conn w)) conn = pre' @ post \<and> Fault \<notin> set pre'
           \<and> stream_bytes pre' = rest)"
proof -
  define w1 where "w1 = snd (recv_all conn HEADER_SIZE w)"
  have "HEADER_SIZE \<le> length (stream_bytes pre)"
    using sb len by (simp add: HEADER_SIZE_def)
  from recv_all_prefix [OF rx nf this] obtain pre1 where
    rx1: "rx w1 conn = pre1 @ post" and nf1: "Fault \<notin> set pre1"
    and h: "fst (recv_all conn HEADER_SIZE w) = Inr (Some hdr)"
    and r: "stream_bytes pre1 = p @ rest"
    using sb len by (auto simp: HEADER_SIZE_def w1_def)
  show ?thesis
  proof (cases "0 < l")
    case False
    with lp have "length p = 0" by linarith
    with lp have "p = []" "l = 0" by simp_all
    then show ?thesis
      using h ph r nf1 rx1 unfolding read_frame_def w1_def [symmetric]
      by (simp add: case_prod_beta w1_def [symmetric])
  next
    case True
    define w2 where "w2 = snd (recv_all conn (nat l) w1)"
    have "nat l \<le> length (stream_bytes pre1)" using r lp by auto
    from recv_all_prefix [OF rx1 nf1 this] obtain pre2 where
      rx2: "rx w2 conn = pre2 @ post" and nf2: "Fault \<notin> set pre2"
      and q: "fst (recv_all conn (nat l) w1) = Inr (Some p)"
      and r2: "stream_bytes pre2 = rest"
      using r lp by (auto simp: w2_def)
    show ?thesis
      using h q True ph r2 nf2 rx2 unfolding read_frame_def w1_def [symmetric]
      by (simp add: case_prod_beta w1_def [symmetric] w2_def [symmetric])
  qed
qed

lemma read_frame_header_fault:
  assumes "rx w conn = pre @ Fault # post" "Fault \<notin> set pre" "length (stream_bytes pre) < 8"
  shows "fst (read_frame conn w) = Inl OSError"
  using recv_all_fault [OF assms(1,2), of HEADER_SIZE] assms(3)
  by (simp add: read_frame_def HEADER_SIZE_def case_prod_beta)

lemma read_frame_payload_fault:
  assumes rx: "rx w conn = pre @ Fault # post" and nf: "Fault \<notin> set pre"
    and sb: "stream_bytes pre = hdr @ rest" and len: "length hdr = 8"
    and ph: "parse_header hdr = Inr (v, t, s, l)" and short: "int (length rest) < l"
  shows "fst (read_frame conn w) = Inl OSError"
proof -
  define w1 where "w1 = snd (recv_all conn HEADER_SIZE w)"
  have "HEADER_SIZE \<le> length (stream_bytes pre)"
    using sb len by (simp add: HEADER_SIZE_def)
  from recv_all_prefix [OF rx nf this] obtain pre1 where
    rx1: "rx w1 conn = pre1 @ Fault # post" and nf1: "Fault \<notin> set pre1"
    and h: "fst (recv_all conn HEADER_SIZE w) = Inr (Some hdr)"
    and r: "stream_bytes pre1 = rest"
    using sb len by (auto simp: HEADER_SIZE_def w1_def)
  have pos: "0 < l" using short by simp
  have "length (stream_bytes pre1) < nat l" using short r by simp
  from recv_all_fault [OF rx1 nf1 this]
  have p: "fst (recv_all conn (nat l) w1) = Inl OSError" .
  show ?thesis
    using h p pos ph unfolding read_frame_def w1_def [symmetric]
    by (simp add: case_prod_beta w1_def [symmetric])
qed

section \<open>Running the model on concrete states\<close>

lemma pack_be_numeral [simp]:
  "pack_be 1 x = [word_of_int x]"
  "pack_be 2 x = [word_of_int (x div 256), word_of_int x]"
  "pack_be 4 x = [word_of_int (x div 256 div 256 div 256), word_of_int (x div 256 div 256),
                  word_of_int (x div 256), word_of_int x]"
  by (simp_all add: eval_nat_numeral)

lemmas run_simps = feed_def quiet_world_def read_frame_def recv_all_def recv_all_loop.simps
  sock_recv_def HEADER_SIZE_def parse_header_def unpack_be_def emit_def logging_def

lemmas step_simps = handle_iteration_def handle_frame_def handle_msg_def handle_connect_def
  handle_list_def handle_file_def handle_disconnect_def broadcast_def send_ack_def
  sock_sendall_def file_append_def build_header_def VERSION_def TYPE_CONNECT_def TYPE_MSG_def
  TYPE_LIST_def TYPE_FILE_def TYPE_ACK_def TYPE_DISCONNECT_def events_since_def peer_def
  Let_def

lemmas client_simps = handle_client_def handle_loop.simps unregister_def sock_close_def
  file_name_def str_int_def digits.simps AList.delete_eq

lemmas text_simps = utf8_encode_cp_def utf8_decode_def utf8_next_def lit_def bytes_lit_def
  scalar_value_def registry_ok_def

lemmas client_run_simps = main_def send_connect_def send_msg_def send_list_def send_disconnect_def
  send_file_def send_file_loop.simps client_sendall_def startswith_def strip_def isspace_def
  wire_seqs_def desk_def build_header_def parse_header_def HEADER_SIZE_def unpack_be_def
  VERSION_def TYPE_CONNECT_def TYPE_MSG_def TYPE_LIST_def TYPE_FILE_def TYPE_DISCONNECT_def
  utf8_encode_cp_def lit_def Let_def

section \<open>The CONNECT branch on every payload\<close>

text \<open>
  On every CONNECT frame the name that is stored is the payload decoded as UTF-8 with the
  bytes that cannot be decoded left out. The decoder has no failing case in this mode, so
  the handler of a decoding error, which would store the text of the peer address, is never
  entered. The entry is stored with the address, and the only \<^verbatim>\<open>sendall\<close> is an ACK to
  the connection with the request's sequence number and the payload \<^verbatim>\<open>CONNECTED\<close>.
\<close>

lemma connect_registers_decoded_name:
  assumes rf: "read_frame conn w = (Inr (Got version TYPE_CONNECT seq len payload), w1)"
  shows "\<exists>nm ack w'.
      handle_iteration conn addr name w = (Inr (Continue (Some nm)), w')
    \<and> utf8_decode Ignore payload = Inr nm
    \<and> (\<forall>s. utf8_decode Strict payload = Inr s \<longrightarrow> nm = s)
    \<and> clients w' = AList.update conn \<lparr>info_name = nm, info_addr = addr\<rparr> (clients w)
    \<and> map_of (clients w') conn = Some \<lparr>info_name = nm, info_addr = addr\<rparr>
    \<and> sends_of (events_since w w') = [(conn, ack)]
    \<and> parse_header ack = Inr (VERSION, TYPE_ACK, seq, 9)
    \<and> drop 8 ack = bytes_lit ''CONNECTED''"
proof -
  from read_frame_Got [OF rf] obtain hdr where
    ph: "parse_header hdr = Inr (version, TYPE_CONNECT, seq, len)" by blast
  from read_frame_frame [OF rf] obtain evs1 where cl1: "clients w1 = clients w"
    and tx1: "tx_down w1 = tx_down w" and cs1: "closed_socks w1 = closed_socks w"
    and tr1: "trace w1 = trace w @ evs1" and q1: "list_all quiet evs1" by blast
  have wr1: "writable w1 = writable w" by (rule writable_cong [OF tx1 cs1])
  from parse_header_range [OF ph] have sq: "0 \<le> seq" "seq \<le> 65535" by simp_all
  obtain ah where ah: "build_header VERSION TYPE_ACK seq (int (length (bytes_lit ''CONNECTED''))) = Inr ah"
    using build_ack [OF sq, of "bytes_lit ''CONNECTED''"] by (auto simp: bytes_lit_def)
  obtain nm where nm: "utf8_decode Ignore payload = Inr nm"
    using utf8_decode_ignore_total by blast
  define ack where "ack = ah @ bytes_lit ''CONNECTED''"
  define w' where "w' = snd (handle_iteration conn addr name w)"
  have it: "handle_iteration conn addr name w = handle_connect conn addr seq payload (logging INFO w1)"
    by (simp add: handle_iteration_Got [OF rf] handle_frame_def)
  have res: "fst (handle_iteration conn addr name w) = Inr (Continue (Some nm))"
    unfolding it by (rule handle_connect_result [OF nm ah])
  have tr: "trace w' = trace w @ evs1 @ [Log INFO, Acquire, RegStore conn, Release, Log INFO]
      @ ack_events conn seq (bytes_lit ''CONNECTED'') (writable w conn)"
    unfolding w'_def it by (simp add: handle_connect_trace tr1 wr1)
  have snd: "sends_of (events_since w w') = [(conn, ack)]"
    unfolding events_since_append [OF tr] using quiet_no_sends [OF q1] sends_of_ack [OF ah]
    by (simp add: ack_def)
  have cl: "clients w' = AList.update conn \<lparr>info_name = nm, info_addr = addr\<rparr> (clients w)"
    unfolding w'_def it by (simp add: handle_connect_clients [OF nm] cl1)
  have mo: "map_of (clients w') conn = Some \<lparr>info_name = nm, info_addr = addr\<rparr>"
    unfolding cl by (simp add: update_conv')
  have st: "\<forall>s. utf8_decode Strict payload = Inr s \<longrightarrow> nm = s"
    using nm utf8_dec_strict_ignore by (auto simp: utf8_decode_def)
  have pa: "parse_header ack = Inr (VERSION, TYPE_ACK, seq, 9)"
    unfolding ack_def using parse_build_header [OF ah, of "bytes_lit ''CONNECTED''"]
    by (simp add: bytes_lit_def)
  have "handle_iteration conn addr name w = (Inr (Continue (Some nm)), w')"
    using res by (simp add: w'_def prod_eq_iff)
  moreover have "drop 8 ack = bytes_lit ''CONNECTED''"
    using length_build_header [OF ah] by (simp add: ack_def)
  ultimately show ?thesis using nm st cl mo snd pa by blast
qed

text \<open>
  A client connects as \<^verbatim>\<open>Alice\<close> with sequence number 1: the name is stored and the reply
  is an ACK with sequence number 1 and the payload \<^verbatim>\<open>CONNECTED\<close>.
\<close>

lemma connect_registers_decoded_name_example:
  "read_frame 1 (feed 1 [Seg ([1, 1, 0, 1, 0, 0, 0, 5] @ bytes_lit ''Alice'')] (quiet_world []))
     = (Inr (Got 1 TYPE_CONNECT 1 5 (bytes_lit ''Alice'')),
        snd (read_frame 1 (feed 1 [Seg ([1, 1, 0, 1, 0, 0, 0, 5] @ bytes_lit ''Alice'')] (quiet_world []))))
   \<and> fst (handle_iteration 1 (lit ''10.0.0.1'', 5001) None
        (feed 1 [Seg ([1, 1, 0, 1, 0, 0, 0, 5] @ bytes_lit ''Alice'')] (quiet_world [])))
      = Inr (Continue (Some (lit ''Alice'')))
   \<and> clients (snd (handle_iteration 1 (lit ''10.0.0.1'', 5001) None
        (feed 1 [Seg ([1, 1, 0, 1, 0, 0, 0, 5] @ bytes_lit ''Alice'')] (quiet_world []))))
      = [(1, \<lparr>info_name = lit ''Alice'', info_addr = (lit ''10.0.0.1'', 5001)\<rparr>)]
   \<and> sends_of (events_since
        (feed 1 [Seg ([1, 1, 0, 1, 0, 0, 0, 5] @ bytes_lit ''Alice'')] (quiet_world []))
        (snd (handle_iteration 1 (lit ''10.0.0.1'', 5001) None
          (feed 1 [Seg ([1, 1, 0, 1, 0, 0, 0, 5] @ bytes_lit ''Alice'')] (quiet_world [])))))
      = [(1, [1, 5, 0, 1, 0, 0, 0, 9] @ bytes_lit ''CONNECTED'')]"
proof -
  let ?w = "feed 1 [Seg ([1, 1, 0, 1, 0, 0, 0, 5] @ bytes_lit ''Alice'')] (quiet_world [])"
  let ?a = "(lit ''10.0.0.1'', 5001)"
  have "fst (read_frame 1 ?w) = Inr (Got 1 TYPE_CONNECT 1 5 (bytes_lit ''Alice''))"
    by (simp add: run_simps TYPE_CONNECT_def bytes_lit_def)
  then have rf: "read_frame 1 ?w = (Inr (Got 1 TYPE_CONNECT 1 5 (bytes_lit ''Alice'')), snd (read_frame 1 ?w))"
    by (simp add: prod_eq_iff)
  have dec: "utf8_decode Ignore (bytes_lit ''Alice'') = Inr (lit ''Alice'')"
    by (simp add: utf8_decode_def utf8_next_def bytes_lit_def lit_def)
  have ev: "sends_of (events_since ?w (snd (handle_iteration 1 ?a None ?w)))
      = [(1, [1, 5, 0, 1, 0, 0, 0, 9] @ bytes_lit ''CONNECTED'')]"
    by (simp add: run_simps step_simps bytes_lit_def)
  from connect_registers_decoded_name [OF rf, of ?a None] obtain nm ack w' where
    it: "handle_iteration 1 ?a None ?w = (Inr (Continue (Some nm)), w')"
    and nm: "utf8_decode Ignore (bytes_lit ''Alice'') = Inr nm"
    and cl: "clients w' = AList.update 1 \<lparr>info_name = nm, info_addr = ?a\<rparr> (clients ?w)"
    by blast
  from it have w': "w' = snd (handle_iteration 1 ?a None ?w)" by simp
  from nm dec have n: "nm = lit ''Alice''" by simp
  from cl have "clients (snd (handle_iteration 1 ?a None ?w))
      = [(1, \<lparr>info_name = lit ''Alice'', info_addr = ?a\<rparr>)]"
    unfolding w' n by (simp add: feed_def quiet_world_def)
  moreover from it have "fst (handle_iteration 1 ?a None ?w) = Inr (Continue (Some (lit ''Alice'')))"
    unfolding n by simp
  ultimately show ?thesis using rf ev by blast
qed

section \<open>The claims\<close>

text \<open>
  C1. Round trip of the codec: for a version and a type in 0..255, a sequence number in
  0..65535 and a payload shorter than \<open>2^32\<close> bytes, \<^verbatim>\<open>build_header\<close> succeeds with an
  eight-byte header, and \<^verbatim>\<open>parse_header\<close> applied to the first eight bytes of the header
  followed by the payload gives back the version, type, sequence and payload length.
\<close>

theorem codec_round_trip:
  assumes "0 \<le> version" "version \<le> 255" "0 \<le> ty" "ty \<le> 255"
    and "0 \<le> seq" "seq \<le> 65535" "length payload < 2 ^ 32"
  shows "\<exists>hdr. build_header version ty seq (int (length payload)) = Inr hdr
           \<and> length hdr = 8
           \<and> parse_header (take 8 (hdr @ payload))
               = Inr (version, ty, seq, int (length payload))"
proof -
  have "int (length payload) \<le> 4294967295" using assms(7) by simp
  then obtain hdr where b: "build_header version ty seq (int (length payload)) = Inr hdr"
    using assms by (simp add: build_header_def)
  have len: "length hdr = 8" by (rule length_build_header [OF b])
  have "parse_header (take 8 (hdr @ payload)) = parse_header (hdr @ [])"
    using len by simp
  also have "\<dots> = Inr (version, ty, seq, int (length payload))"
    by (rule parse_build_header [OF b])
  finally show ?thesis using b len by blast
qed

theorem codec_round_trip_witness:
  "\<exists>hdr. build_header 1 2 65535 (int (length [104, 105 :: byte])) = Inr hdr
      \<and> length hdr = 8
      \<and> parse_header (take 8 (hdr @ [104, 105])) = Inr (1, 2, 65535, int (length [104, 105 :: byte]))"
  using codec_round_trip [of 1 2 65535 "[104, 105]"] by simp

text \<open>
  C2. Broadcast of a message. When an iteration of the handler of connection \<open>conn\<close>
  reads a MSG frame, the calls of \<^verbatim>\<open>sendall\<close> it makes are, in this order: one to every
  connection in the dictionary other than \<open>conn\<close>, in the dictionary's order, each with
  the same bytes, and then one to \<open>conn\<close> with an ACK. The broadcast bytes are the very
  bytes that were read from \<open>conn\<close>: they parse to the version, type, sequence and length
  of the original and carry its payload. The ACK has the original sequence number and the
  payload \<^verbatim>\<open>MSG_RECEIVED\<close>. No call to \<open>conn\<close> carries the broadcast frame. This holds
  whichever sockets refuse the write: a refusal is logged and the fan-out goes on; the
  frames handed over (\<open>delivered\<close>) are those to the sockets that accept a write. The
  iteration goes on to the next frame and leaves the dictionary as it is.
\<close>

theorem msg_broadcast:
  assumes rf: "read_frame conn w = (Inr (Got version TYPE_MSG seq len payload), w1)"
  shows "\<exists>frame ack w'.
      handle_iteration conn addr name w = (Inr (Continue name), w')
    \<and> clients w' = clients w
    \<and> sends_of (events_since w w')
        = map (\<lambda>r. (r, frame)) (filter (\<lambda>r. r \<noteq> conn) (map fst (clients w))) @ [(conn, ack)]
    \<and> delivered (events_since w w')
        = map (\<lambda>r. (r, frame)) (filter (writable w) (filter (\<lambda>r. r \<noteq> conn) (map fst (clients w))))
          @ (if writable w conn then [(conn, ack)] else [])
    \<and> (\<forall>r \<in> fst ` set (clients w). r \<noteq> conn \<longrightarrow> (r, frame) \<in> set (sends_of (events_since w w')))
    \<and> (conn, frame) \<notin> set (sends_of (events_since w w'))
    \<and> stream_bytes (rx w conn) = frame @ stream_bytes (rx w' conn)
    \<and> parse_header frame = Inr (version, TYPE_MSG, seq, len)
    \<and> drop 8 frame = payload \<and> int (length payload) = len
    \<and> parse_header ack = Inr (VERSION, TYPE_ACK, seq, 12)
    \<and> drop 8 ack = bytes_lit ''MSG_RECEIVED''"
proof -
  from read_frame_Got [OF rf] obtain hdr where hdr: "length hdr = 8"
    and ph: "parse_header hdr = Inr (version, TYPE_MSG, seq, len)"
    and bh: "build_header version TYPE_MSG seq len = Inr hdr"
    and lp: "int (length payload) = len"
    and sb: "stream_bytes (rx w conn) = hdr @ payload @ stream_bytes (rx w1 conn)" by blast
  from read_frame_frame [OF rf] obtain evs1 where cl1: "clients w1 = clients w"
    and tx1: "tx_down w1 = tx_down w" and cs1: "closed_socks w1 = closed_socks w"
    and tr1: "trace w1 = trace w @ evs1" and q1: "list_all quiet evs1" by blast
  have wr1: "writable w1 = writable w" by (rule writable_cong [OF tx1 cs1])
  from parse_header_range [OF ph] have sq: "0 \<le> seq" "seq \<le> 65535" by simp_all
  obtain ah where ah: "build_header VERSION TYPE_ACK seq (int (length (bytes_lit ''MSG_RECEIVED''))) = Inr ah"
    using build_ack [OF sq, of "bytes_lit ''MSG_RECEIVED''"] by (auto simp: bytes_lit_def)
  define frame where "frame = hdr @ payload"
  define ack where "ack = ah @ bytes_lit ''MSG_RECEIVED''"
  define w' where "w' = snd (handle_iteration conn addr name w)"
  let ?others = "filter (\<lambda>r. r \<noteq> conn) (map fst (clients w))"
  have it: "handle_iteration conn addr name w
      = handle_msg conn name version seq len payload (logging INFO w1)"
    by (simp add: handle_iteration_Got [OF rf] handle_frame_def TYPE_MSG_def TYPE_CONNECT_def)
  have res: "fst (handle_iteration conn addr name w) = Inr (Continue name)"
    unfolding it by (rule handle_msg_result [OF bh ah])
  have tr: "trace w' = trace w @ evs1 @ [Log INFO, Log INFO, Acquire, RegRead, Release]
      @ fanout_events ?others frame (writable w) @ ack_events conn seq (bytes_lit ''MSG_RECEIVED'') (writable w conn)"
    unfolding w'_def it by (simp add: handle_msg_trace [OF bh] tr1 cl1 wr1 frame_def)
  have es: "events_since w w' = evs1 @ [Log INFO, Log INFO, Acquire, RegRead, Release]
      @ fanout_events ?others frame (writable w) @ ack_events conn seq (bytes_lit ''MSG_RECEIVED'') (writable w conn)"
    by (rule events_since_append [OF tr])
  have snd: "sends_of (events_since w w') = map (\<lambda>r. (r, frame)) ?others @ [(conn, ack)]"
    unfolding es using quiet_no_sends [OF q1] sends_of_ack [OF ah] by (simp add: ack_def)
  have dlv: "delivered (events_since w w') = map (\<lambda>r. (r, frame)) (filter (writable w) ?others)
          @ (if writable w conn then [(conn, ack)] else [])"
    unfolding es using quiet_no_sends [OF q1] sends_of_ack [OF ah] by (simp add: ack_def)
  have pf: "parse_header frame = Inr (version, TYPE_MSG, seq, len)"
    unfolding frame_def by (rule parse_build_header [OF bh])
  have pa: "parse_header ack = Inr (VERSION, TYPE_ACK, seq, 12)"
    unfolding ack_def using parse_build_header [OF ah, of "bytes_lit ''MSG_RECEIVED''"]
    by (simp add: bytes_lit_def)
  have ne: "frame \<noteq> ack"
    using pf pa by (auto simp: TYPE_MSG_def TYPE_ACK_def)
  have all: "\<forall>r \<in> fst ` set (clients w). r \<noteq> conn \<longrightarrow> (r, frame) \<in> set (sends_of (events_since w w'))"
    unfolding snd by auto
  have own: "(conn, frame) \<notin> set (sends_of (events_since w w'))"
    unfolding snd using ne by auto
  have rx': "rx w' = rx w1" unfolding w'_def it by simp
  have cl': "clients w' = clients w" unfolding w'_def it by (simp add: cl1)
  have "handle_iteration conn addr name w = (Inr (Continue name), w')"
    using res by (simp add: w'_def prod_eq_iff)
  moreover have "stream_bytes (rx w conn) = frame @ stream_bytes (rx w' conn)"
    using sb by (simp add: frame_def rx')
  moreover have "drop 8 frame = payload" using hdr by (simp add: frame_def)
  moreover have "drop 8 ack = bytes_lit ''MSG_RECEIVED''"
    using length_build_header [OF ah] by (simp add: ack_def)
  ultimately show ?thesis using cl' snd dlv all own pf lp pa by blast
qed

text \<open>
  Three connected peers; the socket of the third refuses writes. The first sends the
  message \<^verbatim>\<open>hi\<close> with sequence number 5.
\<close>

theorem msg_broadcast_witness:
  "read_frame 1 (feed 1 [Seg [1, 2, 0, 5, 0, 0, 0, 2, 104, 105]] chat3)
     = (Inr (Got 1 TYPE_MSG 5 2 [104, 105]),
        snd (read_frame 1 (feed 1 [Seg [1, 2, 0, 5, 0, 0, 0, 2, 104, 105]] chat3)))
   \<and> fst (handle_iteration 1 (lit ''10.0.0.1'', 5001) (Some (lit ''A''))
        (feed 1 [Seg [1, 2, 0, 5, 0, 0, 0, 2, 104, 105]] chat3)) = Inr (Continue (Some (lit ''A'')))
   \<and> sends_of (events_since (feed 1 [Seg [1, 2, 0, 5, 0, 0, 0, 2, 104, 105]] chat3)
        (snd (handle_iteration 1 (lit ''10.0.0.1'', 5001) (Some (lit ''A''))
           (feed 1 [Seg [1, 2, 0, 5, 0, 0, 0, 2, 104, 105]] chat3))))
      = [(2, [1, 2, 0, 5, 0, 0, 0, 2, 104, 105]), (3, [1, 2, 0, 5, 0, 0, 0, 2, 104, 105]),
         (1, [1, 5, 0, 5, 0, 0, 0, 12] @ bytes_lit ''MSG_RECEIVED'')]
   \<and> delivered (events_since (feed 1 [Seg [1, 2, 0, 5, 0, 0, 0, 2, 104, 105]] chat3)
        (snd (handle_iteration 1 (lit ''10.0.0.1'', 5001) (Some (lit ''A''))
           (feed 1 [Seg [1, 2, 0, 5, 0, 0, 0, 2, 104, 105]] chat3))))
      = [(2, [1, 2, 0, 5, 0, 0, 0, 2, 104, 105]),
         (1, [1, 5, 0, 5, 0, 0, 0, 12] @ bytes_lit ''MSG_RECEIVED'')]"
proof -
  let ?w = "feed 1 [Seg [1, 2, 0, 5, 0, 0, 0, 2, 104, 105]] chat3"
  let ?a = "(lit ''10.0.0.1'', 5001)"
  let ?n = "Some (lit ''A'')"
  let ?F = "[1, 2, 0, 5, 0, 0, 0, 2, 104, 105 :: byte]"
  let ?K = "[1, 5, 0, 5, 0, 0, 0, 12] @ bytes_lit ''MSG_RECEIVED''"
  have "fst (read_frame 1 ?w) = Inr (Got 1 TYPE_MSG 5 2 [104, 105])"
    by (simp add: run_simps chat3_def TYPE_MSG_def)
  then have rf: "read_frame 1 ?w = (Inr (Got 1 TYPE_MSG 5 2 [104, 105]), snd (read_frame 1 ?w))"
    by (simp add: prod_eq_iff)
  have ev: "sends_of (events_since ?w (snd (handle_iteration 1 ?a ?n ?w)))
      = [(2, ?F), (3, ?F), (1, ?K)]"
    by (simp add: run_simps step_simps chat3_def bytes_lit_def)
  from msg_broadcast [OF rf, of ?a ?n] obtain frame ack w' where
    it: "handle_iteration 1 ?a ?n ?w = (Inr (Continue ?n), w')"
    and sn: "sends_of (events_since ?w w')
        = map (\<lambda>r. (r, frame)) (filter (\<lambda>r. r \<noteq> 1) (map fst (clients ?w))) @ [(1, ack)]"
    and dl: "delivered (events_since ?w w')
        = map (\<lambda>r. (r, frame)) (filter (writable ?w) (filter (\<lambda>r. r \<noteq> 1) (map fst (clients ?w))))
          @ (if writable ?w 1 then [(1, ack)] else [])"
    by blast
  from it have w': "w' = snd (handle_iteration 1 ?a ?n ?w)" by simp
  have cl: "filter (\<lambda>r. r \<noteq> 1) (map fst (clients ?w)) = [2, 3]"
    by (simp add: feed_def chat3_def quiet_world_def)
  have wr: "writable ?w 1" "writable ?w 2" "\<not> writable ?w 3"
    by (simp_all add: writable_def feed_def chat3_def quiet_world_def)
  from sn ev have fa: "frame = ?F" "ack = ?K" unfolding w' cl by simp_all
  from dl have "delivered (events_since ?w (snd (handle_iteration 1 ?a ?n ?w))) = [(2, ?F), (1, ?K)]"
    unfolding w' cl fa using wr by simp
  moreover from it have "fst (handle_iteration 1 ?a ?n ?w) = Inr (Continue ?n)" by simp
  ultimately show ?thesis using rf ev by blast
qed

text \<open>
  C3. Cleanup runs once, whichever way the loop ends. \<open>handle_client\<close> is a total
  function of the state, so it returns on every input: on a DISCONNECT, on a stream that
  ends between frames or inside a payload, and on every exception. Whatever the loop did,
  the events of the run end with the one critical section of the \<^verbatim>\<open>finally\<close> block
  (membership test and, when the connection is stored, the deletion), then the one
  \<^verbatim>\<open>close\<close> of the connection's socket, then the last log line; nothing before that
  closes a socket or deletes an entry. Afterwards the dictionary is the one of the start
  without the connection's entry, and the socket is closed.
\<close>

theorem cleanup_exactly_once:
  "conn \<notin> fst ` set (clients (handle_client conn addr w))
   \<and> clients (handle_client conn addr w) = AList.delete conn (clients w)
   \<and> closed_socks (handle_client conn addr w) = insert conn (closed_socks w)
   \<and> (\<exists>pre del. events_since w (handle_client conn addr w)
           = pre @ [Acquire, RegRead] @ del @ [Release, Close conn, Log INFO]
        \<and> list_all (\<lambda>e. \<not> is_close e \<and> \<not> is_delete e) pre
        \<and> (del = [] \<or> del = [RegRead, Log INFO, RegDelete conn]))
   \<and> filter is_close (events_since w (handle_client conn addr w)) = [Close conn]"
proof -
  from handle_client_events [of w conn addr] obtain pre del where
    ev: "events_since w (handle_client conn addr w)
           = pre @ [Acquire, RegRead] @ del @ [Release, Close conn, Log INFO]"
    and op: "orderly pre" and del: "del = [] \<or> del = [RegRead, Log INFO, RegDelete conn]"
    by blast
  from op have quietp: "list_all (\<lambda>e. \<not> is_close e \<and> \<not> is_delete e) pre"
    by (simp add: orderly_def)
  then have "filter is_close pre = []" by (induction pre) auto
  with del have "filter is_close (events_since w (handle_client conn addr w)) = [Close conn]"
    unfolding ev by auto
  moreover have "conn \<notin> fst ` set (clients (handle_client conn addr w))"
    using handle_client_state [of conn addr w] delete_gone [of conn "clients w"] by simp
  ultimately show ?thesis using handle_client_state [of conn addr w] ev quietp del by blast
qed

text \<open>
  The five ways out of the loop, each on two connected peers: a DISCONNECT with sequence
  number 9; a stream that ends between frames; a header that announces 100 bytes of which
  40 arrive; a \<^verbatim>\<open>recv\<close> that raises; and a LIST whose reply cannot be written. Each
  time the first peer's entry is gone afterwards, the second peer's entry is untouched,
  and the socket was closed once.
\<close>

theorem cleanup_exactly_once_witness:
  "fst (handle_loop 1 (lit ''10.0.0.1'', 5001) None
         (logging INFO (feed 1 [Seg [1, 6, 0, 9, 0, 0, 0, 0]] (quiet_world pair2)))) = None
   \<and> clients (handle_client 1 (lit ''10.0.0.1'', 5001)
         (feed 1 [Seg [1, 6, 0, 9, 0, 0, 0, 0]] (quiet_world pair2))) = [(2, peer ''B'' 5002)]
   \<and> fst (handle_loop 1 (lit ''10.0.0.1'', 5001) None (logging INFO (quiet_world pair2))) = None
   \<and> clients (handle_client 1 (lit ''10.0.0.1'', 5001) (quiet_world pair2)) = [(2, peer ''B'' 5002)]
   \<and> closed_socks (handle_client 1 (lit ''10.0.0.1'', 5001) (quiet_world pair2)) = {1}
   \<and> filter is_close (events_since (quiet_world pair2)
         (handle_client 1 (lit ''10.0.0.1'', 5001) (quiet_world pair2))) = [Close 1]
   \<and> fst (handle_loop 1 (lit ''10.0.0.1'', 5001) None
         (logging INFO (feed 1 [Seg [1, 2, 0, 5, 0, 0, 0, 100], Seg (replicate 40 0)] (quiet_world pair2)))) = None
   \<and> clients (handle_client 1 (lit ''10.0.0.1'', 5001)
         (feed 1 [Seg [1, 2, 0, 5, 0, 0, 0, 100], Seg (replicate 40 0)] (quiet_world pair2)))
       = [(2, peer ''B'' 5002)]
   \<and> fst (handle_loop 1 (lit ''10.0.0.1'', 5001) None
         (logging INFO (feed 1 [Fault] (quiet_world pair2)))) = Some OSError
   \<and> clients (handle_client 1 (lit ''10.0.0.1'', 5001) (feed 1 [Fault] (quiet_world pair2)))
       = [(2, peer ''B'' 5002)]
   \<and> fst (handle_loop 1 (lit ''10.0.0.1'', 5001) None
         (logging INFO (feed 1 [Seg [1, 3, 0, 3, 0, 0, 0, 0]] (quiet_world pair2)\<lparr>tx_down := {1}\<rparr>)))
       = Some OSError
   \<and> clients (handle_client 1 (lit ''10.0.0.1'', 5001)
         (feed 1 [Seg [1, 3, 0, 3, 0, 0, 0, 0]] (quiet_world pair2)\<lparr>tx_down := {1}\<rparr>))
       = [(2, peer ''B'' 5002)]"
proof -
  let ?a = "(lit ''10.0.0.1'', 5001)"
  let ?bye = "feed 1 [Seg [1, 6, 0, 9, 0, 0, 0, 0]] (quiet_world pair2)"
  let ?gone = "quiet_world pair2"
  let ?cut = "feed 1 [Seg [1, 2, 0, 5, 0, 0, 0, 100], Seg (replicate 40 0)] (quiet_world pair2)"
  let ?reset = "feed 1 [Fault] (quiet_world pair2)"
  let ?deaf = "feed 1 [Seg [1, 3, 0, 3, 0, 0, 0, 0]] (quiet_world pair2)\<lparr>tx_down := {1}\<rparr>"
  have del: "AList.delete 1 (clients ?bye) = [(2, peer ''B'' 5002)]"
    "AList.delete 1 (clients ?gone) = [(2, peer ''B'' 5002)]"
    "AList.delete 1 (clients ?cut) = [(2, peer ''B'' 5002)]"
    "AList.delete 1 (clients ?reset) = [(2, peer ''B'' 5002)]"
    "AList.delete 1 (clients ?deaf) = [(2, peer ''B'' 5002)]"
    "insert 1 (closed_socks ?gone) = {1}"
    by (simp_all add: feed_def quiet_world_def pair2_def AList.delete_eq)
  have ex: "fst (handle_loop 1 ?a None (logging INFO ?bye)) = None"
    "fst (handle_loop 1 ?a None (logging INFO ?gone)) = None"
    "fst (handle_loop 1 ?a None (logging INFO ?cut)) = None"
    "fst (handle_loop 1 ?a None (logging INFO ?reset)) = Some OSError"
    "fst (handle_loop 1 ?a None (logging INFO ?deaf)) = Some OSError"
    by (simp_all add: run_simps step_simps client_simps text_simps pair2_def)
  note t = cleanup_exactly_once [of 1 ?a]
  from t [of ?bye] t [of ?gone] t [of ?cut] t [of ?reset] t [of ?deaf] ex
  show ?thesis unfolding del by blast
qed

text \<open>
  C4, as the code has it. When an iteration reads a LIST frame, the names that are not empty
  are taken from the dictionary in its order, joined with \<^verbatim>\<open>;\<close> and encoded; a connection
  stored under the empty name contributes nothing. Names that came out of the decoder can
  always be encoded. When the encoded list is shorter than \<open>2^32\<close> bytes, the only
  \<^verbatim>\<open>sendall\<close> is one frame to the requester, of type LIST, with the request's sequence
  number and that list as payload; the iteration goes on unless the write is refused,
  which ends the loop. A list of \<open>2^32\<close> bytes or more cannot be framed: nothing is sent
  and the loop ends.
\<close>

theorem list_reply_nonempty_names:
  assumes rf: "read_frame conn w = (Inr (Got version TYPE_LIST seq len payload), w1)"
    and ok: "registry_ok w"
  shows "\<exists>list_payload.
      utf8_encode (join (lit '';'')
        (filter (\<lambda>n. n \<noteq> []) (map (\<lambda>(s, info). info_name info) (clients w)))) = Inr list_payload
    \<and> clients (snd (handle_iteration conn addr name w)) = clients w
    \<and> (length list_payload < 2 ^ 32 \<longrightarrow>
          (\<exists>reply. sends_of (events_since w (snd (handle_iteration conn addr name w))) = [(conn, reply)]
             \<and> parse_header reply = Inr (VERSION, TYPE_LIST, seq, int (length list_payload))
             \<and> drop 8 reply = list_payload)
          \<and> fst (handle_iteration conn addr name w)
               = (if writable w conn then Inr (Continue name) else Inl OSError))
    \<and> (\<not> length list_payload < 2 ^ 32 \<longrightarrow>
          sends_of (events_since w (snd (handle_iteration conn addr name w))) = []
          \<and> fst (handle_iteration conn addr name w) = Inl StructError)"
proof -
  let ?names = "filter (\<lambda>n. n \<noteq> []) (map (\<lambda>(s, info). info_name info) (clients w))"
  from read_frame_Got [OF rf] obtain hdr where
    ph: "parse_header hdr = Inr (version, TYPE_LIST, seq, len)" by blast
  from read_frame_frame [OF rf] obtain evs1 where cl1: "clients w1 = clients w"
    and tx1: "tx_down w1 = tx_down w" and cs1: "closed_socks w1 = closed_socks w"
    and tr1: "trace w1 = trace w @ evs1" and q1: "list_all quiet evs1" by blast
  have wr1: "writable w1 = writable w" by (rule writable_cong [OF tx1 cs1])
  from parse_header_range [OF ph] have sq: "0 \<le> seq" "seq \<le> 65535" by simp_all
  have "list_all scalar_value (join (lit '';'') ?names)"
    by (rule join_scalar [OF _ registry_names_scalar [OF ok]]) (simp add: lit_def scalar_value_def)
  from utf8_encode_scalar [OF this] obtain lp where lp: "utf8_encode (join (lit '';'') ?names) = Inr lp"
    by blast
  have lp1: "utf8_encode (join (lit '';'')
      (filter (\<lambda>n. n \<noteq> []) (map (\<lambda>(s, info). info_name info) (clients (logging INFO w1))))) = Inr lp"
    using lp by (simp add: cl1)
  have wl: "writable (logging INFO w1) = writable w" by (simp add: wr1)
  define w' where "w' = snd (handle_iteration conn addr name w)"
  have it: "handle_iteration conn addr name w = handle_list conn name seq (logging INFO w1)"
    by (simp add: handle_iteration_Got [OF rf] handle_frame_def TYPE_LIST_def TYPE_CONNECT_def
        TYPE_MSG_def)
  have cl: "clients w' = clients w" unfolding w'_def it by (simp add: cl1)
  have tr: "trace w' = trace w @ evs1 @ [Log INFO, Acquire, RegRead, Release]
     @ (case build_header VERSION TYPE_LIST seq (int (length lp)) of
          Inl e \<Rightarrow> []
        | Inr hdr \<Rightarrow> [Send conn (hdr @ lp) (writable w conn)])"
    using handle_list_trace(1) [OF lp1, of conn name seq]
    unfolding w'_def it wl by (simp add: tr1)
  note es = events_since_append [OF tr]
  have res: "fst (handle_iteration conn addr name w)
     = (case build_header VERSION TYPE_LIST seq (int (length lp)) of
          Inl e \<Rightarrow> Inl e
        | Inr hdr \<Rightarrow> if writable w conn then Inr (Continue name) else Inl OSError)"
    using handle_list_trace(2) [OF lp1, of conn name seq] unfolding it wl .
  have small: "length lp < 2 ^ 32 \<longrightarrow>
          (\<exists>reply. sends_of (events_since w w') = [(conn, reply)]
             \<and> parse_header reply = Inr (VERSION, TYPE_LIST, seq, int (length lp))
             \<and> drop 8 reply = lp)
          \<and> fst (handle_iteration conn addr name w)
               = (if writable w conn then Inr (Continue name) else Inl OSError)"
  proof
    assume "length lp < 2 ^ 32"
    then obtain rh where rh: "build_header VERSION TYPE_LIST seq (int (length lp)) = Inr rh"
      using sq by (simp add: build_header_def VERSION_def TYPE_LIST_def)
    have "sends_of (events_since w w') = [(conn, rh @ lp)]"
      unfolding es using quiet_no_sends [OF q1] by (simp add: rh)
    moreover have "parse_header (rh @ lp) = Inr (VERSION, TYPE_LIST, seq, int (length lp))"
      by (rule parse_build_header [OF rh])
    moreover have "drop 8 (rh @ lp) = lp" using length_build_header [OF rh] by simp
    ultimately show "(\<exists>reply. sends_of (events_since w w') = [(conn, reply)]
             \<and> parse_header reply = Inr (VERSION, TYPE_LIST, seq, int (length lp))
             \<and> drop 8 reply = lp)
          \<and> fst (handle_iteration conn addr name w)
               = (if writable w conn then Inr (Continue name) else Inl OSError)"
      using res by (simp add: rh)
  qed
  have large: "\<not> length lp < 2 ^ 32 \<longrightarrow>
          sends_of (events_since w w') = [] \<and> fst (handle_iteration conn addr name w) = Inl StructError"
  proof
    assume "\<not> length lp < 2 ^ 32"
    then have rh: "build_header VERSION TYPE_LIST seq (int (length lp)) = Inl StructError"
      by (simp add: build_header_def)
    show "sends_of (events_since w w') = [] \<and> fst (handle_iteration conn addr name w) = Inl StructError"
      unfolding es res using quiet_no_sends [OF q1] by (simp add: rh)
  qed
  show ?thesis using lp cl small large unfolding w'_def by blast
qed

text \<open>
  Three peers, the second stored under the empty name; the first asks for the list with
  sequence number 7 and is sent \<^verbatim>\<open>Ann;Bob\<close> in a LIST frame with sequence number 7.
\<close>

theorem list_reply_nonempty_names_witness:
  "read_frame 1 names3 = (Inr (Got 1 TYPE_LIST 7 0 []), snd (read_frame 1 names3))
   \<and> registry_ok names3
   \<and> utf8_encode (join (lit '';'')
        (filter (\<lambda>n. n \<noteq> []) (map (\<lambda>(s, info). info_name info) (clients names3))))
      = Inr (bytes_lit ''Ann;Bob'')
   \<and> sends_of (events_since names3 (snd (handle_iteration 1 (lit ''10.0.0.1'', 5001) (Some (lit ''Ann'')) names3)))
      = [(1, [1, 3, 0, 7, 0, 0, 0, 7] @ bytes_lit ''Ann;Bob'')]
   \<and> fst (handle_iteration 1 (lit ''10.0.0.1'', 5001) (Some (lit ''Ann'')) names3)
      = Inr (Continue (Some (lit ''Ann'')))
   \<and> clients (snd (handle_iteration 1 (lit ''10.0.0.1'', 5001) (Some (lit ''Ann'')) names3))
      = clients names3"
proof -
  let ?a = "(lit ''10.0.0.1'', 5001)"
  let ?n = "Some (lit ''Ann'')"
  have "fst (read_frame 1 names3) = Inr (Got 1 TYPE_LIST 7 0 [])"
    by (simp add: run_simps names3_def TYPE_LIST_def)
  then have rf: "read_frame 1 names3 = (Inr (Got 1 TYPE_LIST 7 0 []), snd (read_frame 1 names3))"
    by (simp add: prod_eq_iff)
  have ok: "registry_ok names3"
    by (simp add: names3_def feed_def quiet_world_def peer_def text_simps)
  have enc: "utf8_encode (join (lit '';'')
        (filter (\<lambda>n. n \<noteq> []) (map (\<lambda>(s, info). info_name info) (clients names3))))
      = Inr (bytes_lit ''Ann;Bob'')"
    by (simp add: names3_def feed_def quiet_world_def peer_def text_simps)
  have ev: "sends_of (events_since names3 (snd (handle_iteration 1 ?a ?n names3)))
      = [(1, [1, 3, 0, 7, 0, 0, 0, 7] @ bytes_lit ''Ann;Bob'')]"
    by (simp add: run_simps step_simps names3_def text_simps)
  have wr: "writable names3 1"
    by (simp add: writable_def names3_def feed_def quiet_world_def)
  from list_reply_nonempty_names [OF rf ok, of ?a ?n] obtain lp where
    lp: "utf8_encode (join (lit '';'')
        (filter (\<lambda>n. n \<noteq> []) (map (\<lambda>(s, info). info_name info) (clients names3)))) = Inr lp"
    and cl: "clients (snd (handle_iteration 1 ?a ?n names3)) = clients names3"
    and sm: "length lp < 2 ^ 32 \<longrightarrow>
          fst (handle_iteration 1 ?a ?n names3)
               = (if writable names3 1 then Inr (Continue ?n) else Inl OSError)"
    by blast
  from lp enc have "lp = bytes_lit ''Ann;Bob''" by simp
  then have "length lp < 2 ^ 32" by (simp add: bytes_lit_def)
  with sm wr have "fst (handle_iteration 1 ?a ?n names3) = Inr (Continue ?n)" by simp
  with rf ok enc ev cl show ?thesis by blast
qed

text \<open>
  The claim as stated fails where a connection is stored under the empty name. Two
  connections are in the dictionary, with the names \<^verbatim>\<open>''\<close> and \<^verbatim>\<open>Bob\<close>; joined with
  \<^verbatim>\<open>;\<close> they give \<^verbatim>\<open>;Bob\<close> or \<^verbatim>\<open>Bob;\<close>. The reply carries \<^verbatim>\<open>Bob\<close>: the first
  connection's name is left out.
\<close>

theorem list_omits_empty_name_counterexample:
  "map (\<lambda>(s, info). info_name info) (clients names2) = [[], lit ''Bob'']
   \<and> sends_of (events_since names2 (snd (handle_iteration 2 (lit ''10.0.0.1'', 5002) (Some (lit ''Bob'')) names2)))
      = [(2, [1, 3, 0, 7, 0, 0, 0, 3] @ bytes_lit ''Bob'')]
   \<and> utf8_encode (join (lit '';'') [[], lit ''Bob'']) = Inr (bytes_lit '';Bob'')
   \<and> utf8_encode (join (lit '';'') [lit ''Bob'', []]) = Inr (bytes_lit ''Bob;'')
   \<and> bytes_lit ''Bob'' \<noteq> bytes_lit '';Bob''
   \<and> bytes_lit ''Bob'' \<noteq> bytes_lit ''Bob;''"
  by (simp add: run_simps step_simps names2_def text_simps)

text \<open>
  C5 does not hold of the client. A user sends the file \<^verbatim>\<open>f\<close> of 4097 bytes, then the
  line \<^verbatim>\<open>hi\<close>, then quits. The file goes out in two chunks with the sequence numbers 2
  and 3, counted inside \<^verbatim>\<open>send_file\<close>; \<^verbatim>\<open>main\<close> then adds one to its own counter,
  which still stands at 2, and the message goes out with the sequence number 3 again,
  directly after the chunk that carried it.
\<close>

theorem sendfile_sequence_reuse:
  "fst (main (lit ''Al'') [Line (lit ''/sendfile f''), Line (lit ''hi''), Line (lit ''/quit'')] desk)
     = Quit
   \<and> wire_seqs (wire (snd (main (lit ''Al'')
        [Line (lit ''/sendfile f''), Line (lit ''hi''), Line (lit ''/quit'')] desk)))
     = [Some (TYPE_CONNECT, 1), Some (TYPE_FILE, 2), Some (TYPE_FILE, 3), Some (TYPE_MSG, 3),
        Some (TYPE_DISCONNECT, 4)]"
  by (simp add: client_run_simps)

text \<open>
  C6 does not hold of the server where the payload is not UTF-8. A peer at
  \<^verbatim>\<open>('10.0.0.1', 5001)\<close> sends a CONNECT frame with sequence number 1 whose payload is
  the one byte \<open>0xFF\<close>. Decoding that payload fails in the strict sense, and the claim,
  like the \<^verbatim>\<open>except\<close> branch of the code, then takes the text of the address as the name.
  The code decodes with \<^verbatim>\<open>errors='ignore'\<close>, which drops the byte and does not raise:
  the connection is stored under the empty name. The rest of the claim holds here: the
  iteration goes on, and the reply is an ACK with sequence number 1 and the payload
  \<^verbatim>\<open>CONNECTED\<close>.
\<close>

theorem connect_fallback_never_reached:
  "utf8_decode Strict [255] = Inl UnicodeError
   \<and> str_addr (lit ''10.0.0.1'', 5001) = [40, 39] @ lit ''10.0.0.1'' @ [39] @ lit '', 5001)''
   \<and> fst (handle_iteration 1 (lit ''10.0.0.1'', 5001) None
        (feed 1 [Seg [1, 1, 0, 1, 0, 0, 0, 1, 255]] (quiet_world []))) = Inr (Continue (Some []))
   \<and> clients (snd (handle_iteration 1 (lit ''10.0.0.1'', 5001) None
        (feed 1 [Seg [1, 1, 0, 1, 0, 0, 0, 1, 255]] (quiet_world []))))
      = [(1, \<lparr>info_name = [], info_addr = (lit ''10.0.0.1'', 5001)\<rparr>)]
   \<and> sends_of (events_since (feed 1 [Seg [1, 1, 0, 1, 0, 0, 0, 1, 255]] (quiet_world []))
        (snd (handle_iteration 1 (lit ''10.0.0.1'', 5001) None
          (feed 1 [Seg [1, 1, 0, 1, 0, 0, 0, 1, 255]] (quiet_world [])))))
      = [(1, [1, 5, 0, 1, 0, 0, 0, 9] @ bytes_lit ''CONNECTED'')]"
  by (simp add: run_simps step_simps text_simps str_addr_def str_int_def digits.simps)

text \<open>
  C7. The reader hands over complete frames, and every complete frame. When an iteration
  reads a frame, it has taken from the stream the eight bytes of a header and then as many
  payload bytes as the header's length field says, no more and no fewer. Conversely, when
  the stream brings, before any transport error, a header and all the payload bytes that
  the header announces, in whatever pieces they arrive, the read gives exactly that frame,
  leaves the bytes after it in the stream, and the iteration dispatches the frame. When the
  stream ends before eight header bytes have come, the read reports the connection lost;
  when it ends after a header but before the announced payload is complete, the read
  reports the connection lost in the payload; when a transport error comes instead of the
  missing bytes, the read raises it. In these cases the loop ends there: the handler has
  only called \<^verbatim>\<open>recv\<close> and logged, no frame was dispatched, nothing was sent and the
  dictionary is as before.
\<close>

theorem reader_complete_frames:
  "(read_frame conn w = (Inr (Got v t s l p), w') \<longrightarrow>
      (\<exists>hdr. length hdr = 8 \<and> parse_header hdr = Inr (v, t, s, l) \<and> int (length p) = l
          \<and> stream_bytes (rx w conn) = hdr @ p @ stream_bytes (rx w' conn)))
   \<and> (rx w conn = pre @ post \<and> Fault \<notin> set pre \<and> stream_bytes pre = h2 @ p2 @ rest2
        \<and> length h2 = 8 \<and> parse_header h2 = Inr (v2, t2, s2, l2) \<and> int (length p2) = l2 \<longrightarrow>
        fst (read_frame conn w) = Inr (Got v2 t2 s2 l2 p2)
        \<and> (\<exists>pre'. rx (snd (read_frame conn w)) conn = pre' @ post \<and> Fault \<notin> set pre'
              \<and> stream_bytes pre' = rest2)
        \<and> handle_iteration conn addr name w
             = handle_frame conn addr name v2 t2 s2 l2 p2 (snd (read_frame conn w)))
   \<and> (Fault \<notin> set (rx w conn) \<and> length (stream_bytes (rx w conn)) < 8 \<longrightarrow>
        fst (read_frame conn w) = Inr Lost)
   \<and> (Fault \<notin> set (rx w conn) \<and> stream_bytes (rx w conn) = h @ rest \<and> length h = 8
        \<and> parse_header h = Inr (v', t', s', l') \<and> int (length rest) < l' \<longrightarrow>
        fst (read_frame conn w) = Inr LostInPayload)
   \<and> (rx w conn = pre3 @ Fault # post3 \<and> Fault \<notin> set pre3
        \<and> (length (stream_bytes pre3) < 8
            \<or> (\<exists>h3 rest3 v3 t3 s3 l3. stream_bytes pre3 = h3 @ rest3 \<and> length h3 = 8
                  \<and> parse_header h3 = Inr (v3, t3, s3, l3) \<and> int (length rest3) < l3)) \<longrightarrow>
        fst (read_frame conn w) = Inl OSError)
   \<and> (fst (read_frame conn w) = Inr Lost \<or> fst (read_frame conn w) = Inr LostInPayload \<longrightarrow>
        handle_loop conn addr name w = (None, snd (read_frame conn w))
        \<and> list_all quiet (events_since w (snd (read_frame conn w)))
        \<and> sends_of (events_since w (snd (read_frame conn w))) = []
        \<and> clients (snd (read_frame conn w)) = clients w)
   \<and> (fst (read_frame conn w) = Inl e \<longrightarrow>
        handle_loop conn addr name w = (Some e, snd (read_frame conn w))
        \<and> list_all quiet (events_since w (snd (read_frame conn w)))
        \<and> sends_of (events_since w (snd (read_frame conn w))) = []
        \<and> clients (snd (read_frame conn w)) = clients w)"
proof -
  from read_frame_quiet [of conn w] obtain evs where
    evs: "trace (snd (read_frame conn w)) = trace w @ evs" "list_all quiet evs" by blast
  have es: "events_since w (snd (read_frame conn w)) = evs"
    by (rule events_since_append [OF evs(1)])
  have silent: "list_all quiet (events_since w (snd (read_frame conn w)))
        \<and> sends_of (events_since w (snd (read_frame conn w))) = []
        \<and> clients (snd (read_frame conn w)) = clients w"
    unfolding es using evs(2) quiet_no_sends [OF evs(2)] read_frame_quiet [of conn w] by simp
  have sound: "read_frame conn w = (Inr (Got v t s l p), w') \<longrightarrow>
      (\<exists>hdr. length hdr = 8 \<and> parse_header hdr = Inr (v, t, s, l) \<and> int (length p) = l
          \<and> stream_bytes (rx w conn) = hdr @ p @ stream_bytes (rx w' conn))"
    using read_frame_Got [of conn w v t s l p w'] by blast
  have complete: "rx w conn = pre @ post \<and> Fault \<notin> set pre \<and> stream_bytes pre = h2 @ p2 @ rest2
        \<and> length h2 = 8 \<and> parse_header h2 = Inr (v2, t2, s2, l2) \<and> int (length p2) = l2 \<longrightarrow>
        fst (read_frame conn w) = Inr (Got v2 t2 s2 l2 p2)
        \<and> (\<exists>pre'. rx (snd (read_frame conn w)) conn = pre' @ post \<and> Fault \<notin> set pre'
              \<and> stream_bytes pre' = rest2)
        \<and> handle_iteration conn addr name w
             = handle_frame conn addr name v2 t2 s2 l2 p2 (snd (read_frame conn w))"
  proof
    assume a: "rx w conn = pre @ post \<and> Fault \<notin> set pre \<and> stream_bytes pre = h2 @ p2 @ rest2
        \<and> length h2 = 8 \<and> parse_header h2 = Inr (v2, t2, s2, l2) \<and> int (length p2) = l2"
    then have y: "fst (read_frame conn w) = Inr (Got v2 t2 s2 l2 p2)
       \<and> (\<exists>pre'. rx (snd (read_frame conn w)) conn = pre' @ post \<and> Fault \<notin> set pre'
             \<and> stream_bytes pre' = rest2)"
      using read_frame_yields_prefix [of w conn pre post h2 p2 rest2 v2 t2 s2 l2] by blast
    then have "read_frame conn w = (Inr (Got v2 t2 s2 l2 p2), snd (read_frame conn w))"
      by (simp add: prod_eq_iff)
    from handle_iteration_Got [OF this] y
    show "fst (read_frame conn w) = Inr (Got v2 t2 s2 l2 p2)
        \<and> (\<exists>pre'. rx (snd (read_frame conn w)) conn = pre' @ post \<and> Fault \<notin> set pre'
              \<and> stream_bytes pre' = rest2)
        \<and> handle_iteration conn addr name w
             = handle_frame conn addr name v2 t2 s2 l2 p2 (snd (read_frame conn w))"
      by blast
  qed
  have lost: "Fault \<notin> set (rx w conn) \<and> length (stream_bytes (rx w conn)) < 8 \<longrightarrow>
        fst (read_frame conn w) = Inr Lost"
    by (simp add: read_frame_header_lost)
  have cut: "Fault \<notin> set (rx w conn) \<and> stream_bytes (rx w conn) = h @ rest \<and> length h = 8
        \<and> parse_header h = Inr (v', t', s', l') \<and> int (length rest) < l' \<longrightarrow>
        fst (read_frame conn w) = Inr LostInPayload"
    using read_frame_payload_lost [of w conn h rest v' t' s' l'] by blast
  have err: "rx w conn = pre3 @ Fault # post3 \<and> Fault \<notin> set pre3
        \<and> (length (stream_bytes pre3) < 8
            \<or> (\<exists>h3 rest3 v3 t3 s3 l3. stream_bytes pre3 = h3 @ rest3 \<and> length h3 = 8
                  \<and> parse_header h3 = Inr (v3, t3, s3, l3) \<and> int (length rest3) < l3)) \<longrightarrow>
        fst (read_frame conn w) = Inl OSError"
    using read_frame_header_fault [of w conn pre3 post3]
      read_frame_payload_fault [of w conn pre3 post3] by blast
  have ends: "fst (read_frame conn w) = Inr Lost \<or> fst (read_frame conn w) = Inr LostInPayload \<longrightarrow>
        handle_loop conn addr name w = (None, snd (read_frame conn w))"
    using handle_loop_lost [of conn w addr name] by blast
  have raises: "fst (read_frame conn w) = Inl e \<longrightarrow>
        handle_loop conn addr name w = (Some e, snd (read_frame conn w))"
    using handle_loop_error [of conn w e addr name] by blast
  from sound complete lost cut err ends raises silent show ?thesis by blast
qed

text \<open>
  The cases on concrete streams: a message of three bytes that arrives in three pieces,
  followed by one more byte and then a transport error; a two-byte message followed by the
  start of the next frame; a stream that ends after three bytes; a header that announces
  100 bytes, of which 40 arrive before the stream ends; and three bytes followed by a
  transport error.
\<close>

theorem reader_complete_frames_witness:
  "fst (read_frame 1
      (feed 1 [Seg [1, 2, 0, 5, 0, 0], Seg [0, 3, 104], Seg [105, 33, 9], Fault] (quiet_world [])))
     = Inr (Got 1 2 5 3 [104, 105, 33])
   \<and> (\<exists>pre'. rx (snd (read_frame 1
          (feed 1 [Seg [1, 2, 0, 5, 0, 0], Seg [0, 3, 104], Seg [105, 33, 9], Fault] (quiet_world [])))) 1
         = pre' @ [Fault] \<and> Fault \<notin> set pre' \<and> stream_bytes pre' = [9])
   \<and> fst (read_frame 1 (feed 1 [Seg [1, 2, 0, 5, 0, 0, 0, 2, 104], Seg [105, 9]] (quiet_world [])))
     = Inr (Got 1 2 5 2 [104, 105])
   \<and> (\<exists>hdr. length hdr = 8 \<and> parse_header hdr = Inr (1, 2, 5, 2)
         \<and> int (length [104, 105 :: byte]) = 2
         \<and> stream_bytes [Seg [1, 2, 0, 5, 0, 0, 0, 2, 104], Seg [105, 9]]
             = hdr @ [104, 105] @ [9])
   \<and> fst (read_frame 1 (feed 1 [Seg [1, 2, 0]] (quiet_world []))) = Inr Lost
   \<and> handle_loop 1 (lit ''10.0.0.1'', 5001) None (feed 1 [Seg [1, 2, 0]] (quiet_world []))
       = (None, snd (read_frame 1 (feed 1 [Seg [1, 2, 0]] (quiet_world []))))
   \<and> fst (read_frame 1
        (feed 1 [Seg [1, 2, 0, 5, 0, 0, 0, 100], Seg (replicate 40 0)] (quiet_world [(1, peer ''A'' 5001)])))
       = Inr LostInPayload
   \<and> handle_loop 1 (lit ''10.0.0.1'', 5001) (Some (lit ''A''))
        (feed 1 [Seg [1, 2, 0, 5, 0, 0, 0, 100], Seg (replicate 40 0)] (quiet_world [(1, peer ''A'' 5001)]))
       = (None, snd (read_frame 1
           (feed 1 [Seg [1, 2, 0, 5, 0, 0, 0, 100], Seg (replicate 40 0)] (quiet_world [(1, peer ''A'' 5001)]))))
   \<and> sends_of (events_since
        (feed 1 [Seg [1, 2, 0, 5, 0, 0, 0, 100], Seg (replicate 40 0)] (quiet_world [(1, peer ''A'' 5001)]))
        (snd (read_frame 1
           (feed 1 [Seg [1, 2, 0, 5, 0, 0, 0, 100], Seg (replicate 40 0)] (quiet_world [(1, peer ''A'' 5001)])))))
       = []
   \<and> fst (read_frame 1 (feed 1 [Seg [1, 2, 0], Fault] (quiet_world []))) = Inl OSError
   \<and> handle_loop 1 (lit ''10.0.0.1'', 5001) None (feed 1 [Seg [1, 2, 0], Fault] (quiet_world []))
       = (Some OSError, snd (read_frame 1 (feed 1 [Seg [1, 2, 0], Fault] (quiet_world []))))"
proof -
  let ?wY = "feed 1 [Seg [1, 2, 0, 5, 0, 0], Seg [0, 3, 104], Seg [105, 33, 9], Fault] (quiet_world [])"
  let ?wA = "feed 1 [Seg [1, 2, 0, 5, 0, 0, 0, 2, 104], Seg [105, 9]] (quiet_world [])"
  let ?wB = "feed 1 [Seg [1, 2, 0]] (quiet_world [])"
  let ?wC = "feed 1 [Seg [1, 2, 0, 5, 0, 0, 0, 100], Seg (replicate 40 0)] (quiet_world [(1, peer ''A'' 5001)])"
  let ?wE = "feed 1 [Seg [1, 2, 0], Fault] (quiet_world [])"
  let ?a = "(lit ''10.0.0.1'', 5001)"
  have Y: "rx ?wY 1 = [Seg [1, 2, 0, 5, 0, 0], Seg [0, 3, 104], Seg [105, 33, 9]] @ [Fault]
      \<and> Fault \<notin> set [Seg [1, 2, 0, 5, 0, 0], Seg [0, 3, 104], Seg [105, 33, 9]]
      \<and> stream_bytes [Seg [1, 2, 0, 5, 0, 0], Seg [0, 3, 104], Seg [105, 33, 9]]
          = [1, 2, 0, 5, 0, 0, 0, 3] @ [104, 105, 33] @ [9]
      \<and> length [1, 2, 0, 5, 0, 0, 0, 3 :: byte] = 8
      \<and> parse_header [1, 2, 0, 5, 0, 0, 0, 3] = Inr (1, 2, 5, 3)
      \<and> int (length [104, 105, 33 :: byte]) = 3"
    by (simp add: run_simps)
  have a1: "fst (read_frame 1 ?wA) = Inr (Got 1 2 5 2 [104, 105])"
    by (simp add: run_simps)
  then have A: "read_frame 1 ?wA = (Inr (Got 1 2 5 2 [104, 105]), snd (read_frame 1 ?wA))"
    by (simp add: prod_eq_iff)
  have A': "stream_bytes (rx ?wA 1) = [1, 2, 0, 5, 0, 0, 0, 2, 104, 105, 9]"
    "stream_bytes (rx (snd (read_frame 1 ?wA)) 1) = [9]"
    by (simp_all add: run_simps)
  have B: "Fault \<notin> set (rx ?wB 1) \<and> length (stream_bytes (rx ?wB 1)) < 8"
    by (simp add: run_simps)
  have C: "Fault \<notin> set (rx ?wC 1)
      \<and> stream_bytes (rx ?wC 1) = [1, 2, 0, 5, 0, 0, 0, 100] @ replicate 40 0
      \<and> length [1, 2, 0, 5, 0, 0, 0, 100 :: byte] = 8
      \<and> parse_header [1, 2, 0, 5, 0, 0, 0, 100] = Inr (1, 2, 5, 100)
      \<and> int (length (replicate 40 (0 :: byte))) < 100"
    by (simp add: run_simps)
  have E: "rx ?wE 1 = [Seg [1, 2, 0]] @ Fault # [] \<and> Fault \<notin> set [Seg [1, 2, 0]]
      \<and> length (stream_bytes [Seg [1, 2, 0]]) < 8"
    by (simp add: run_simps)
  note y = reader_complete_frames [where conn = 1 and w = ?wY
      and pre = "[Seg [1, 2, 0, 5, 0, 0], Seg [0, 3, 104], Seg [105, 33, 9]]" and post = "[Fault]"
      and ?h2.0 = "[1, 2, 0, 5, 0, 0, 0, 3]" and ?p2.0 = "[104, 105, 33]" and ?rest2.0 = "[9]"
      and ?v2.0 = 1 and ?t2.0 = 2 and ?s2.0 = 5 and ?l2.0 = 3, THEN conjunct2, THEN conjunct1,
      THEN mp, OF Y]
  note a = reader_complete_frames [where conn = 1 and w = ?wA and v = 1 and t = 2 and s = 5
      and l = 2 and p = "[104, 105]" and w' = "snd (read_frame 1 ?wA)", THEN conjunct1, THEN mp, OF A]
  note b1 = reader_complete_frames [where conn = 1 and w = ?wB, THEN conjunct2, THEN conjunct2,
      THEN conjunct1, THEN mp, OF B]
  note c1 = reader_complete_frames [where conn = 1 and w = ?wC and h = "[1, 2, 0, 5, 0, 0, 0, 100]"
      and rest = "replicate 40 0" and v' = 1 and t' = 2 and s' = 5 and l' = 100,
      THEN conjunct2, THEN conjunct2, THEN conjunct2, THEN conjunct1, THEN mp, OF C]
  have E': "rx ?wE 1 = [Seg [1, 2, 0]] @ Fault # [] \<and> Fault \<notin> set [Seg [1, 2, 0]]
      \<and> (length (stream_bytes [Seg [1, 2, 0]]) < 8
          \<or> (\<exists>h3 rest3 v3 t3 s3 l3. stream_bytes [Seg [1, 2, 0]] = h3 @ rest3 \<and> length h3 = 8
                \<and> parse_header h3 = Inr (v3, t3, s3, l3) \<and> int (length rest3) < l3))"
    using E by blast
  note e1 = reader_complete_frames [where conn = 1 and w = ?wE and ?pre3.0 = "[Seg [1, 2, 0]]"
      and ?post3.0 = "[]", THEN conjunct2, THEN conjunct2, THEN conjunct2, THEN conjunct2,
      THEN conjunct1, THEN mp, OF E']
  have bl: "fst (read_frame 1 ?wB) = Inr Lost \<or> fst (read_frame 1 ?wB) = Inr LostInPayload"
    using b1 by simp
  have cl: "fst (read_frame 1 ?wC) = Inr Lost \<or> fst (read_frame 1 ?wC) = Inr LostInPayload"
    using c1 by simp
  note b2 = reader_complete_frames [where conn = 1 and w = ?wB and addr = ?a and name = None,
      THEN conjunct2, THEN conjunct2, THEN conjunct2, THEN conjunct2, THEN conjunct2,
      THEN conjunct1, THEN mp, OF bl, THEN conjunct1]
  note c23 = reader_complete_frames [where conn = 1 and w = ?wC and addr = ?a
      and name = "Some (lit ''A'')",
      THEN conjunct2, THEN conjunct2, THEN conjunct2, THEN conjunct2, THEN conjunct2,
      THEN conjunct1, THEN mp, OF cl]
  note e2 = reader_complete_frames [where conn = 1 and w = ?wE and addr = ?a and name = None
      and e = OSError,
      THEN conjunct2, THEN conjunct2, THEN conjunct2, THEN conjunct2, THEN conjunct2,
      THEN conjunct2, THEN mp, OF e1, THEN conjunct1]
  from y have y1: "fst (read_frame 1 ?wY) = Inr (Got 1 2 5 3 [104, 105, 33])"
    and y2: "\<exists>pre'. rx (snd (read_frame 1 ?wY)) 1 = pre' @ [Fault] \<and> Fault \<notin> set pre'
       \<and> stream_bytes pre' = [9]"
    by blast+
  from c23 have c2: "handle_loop 1 ?a (Some (lit ''A'')) ?wC = (None, snd (read_frame 1 ?wC))"
    and c3: "sends_of (events_since ?wC (snd (read_frame 1 ?wC))) = []"
    by blast+
  from a A' have a2: "\<exists>hdr. length hdr = 8 \<and> parse_header hdr = Inr (1, 2, 5, 2)
         \<and> int (length [104, 105 :: byte]) = 2
         \<and> stream_bytes [Seg [1, 2, 0, 5, 0, 0, 0, 2, 104], Seg [105, 9]]
             = hdr @ [104, 105] @ [9]"
    by simp
  from y1 y2 a1 a2 b1 b2 c1 c2 c3 e1 e2 show ?thesis by blast
qed

text \<open>
  C8. Removing a connection is idempotent: after the \<^verbatim>\<open>finally\<close> block has removed a
  connection, running it again leaves the dictionary as it is; and on a connection that is
  not in the dictionary it changes nothing, and only takes the lock, tests membership and
  releases the lock.
\<close>

theorem unregister_idempotent:
  "clients (unregister conn (unregister conn w)) = clients (unregister conn w)
   \<and> (conn \<notin> fst ` set (clients w) \<longrightarrow>
        clients (unregister conn w) = clients w
        \<and> events_since w (unregister conn w) = [Acquire, RegRead, Release])"
proof -
  have "conn \<notin> fst ` set (AList.delete conn (clients w))"
    by (simp add: AList.delete_eq) force
  then show ?thesis
    using events_since_append [OF unregister_events]
    by (simp add: unregister_clients)
qed

theorem unregister_idempotent_witness:
  "clients (unregister 1 (unregister 1 (quiet_world [(1, peer ''A'' 5001), (2, peer ''B'' 5002)])))
     = [(2, peer ''B'' 5002)]
   \<and> clients (unregister 1 (quiet_world [(1, peer ''A'' 5001), (2, peer ''B'' 5002)]))
     = [(2, peer ''B'' 5002)]
   \<and> clients (unregister 3 (quiet_world [(1, peer ''A'' 5001), (2, peer ''B'' 5002)]))
     = [(1, peer ''A'' 5001), (2, peer ''B'' 5002)]
   \<and> events_since (quiet_world [(1, peer ''A'' 5001), (2, peer ''B'' 5002)])
        (unregister 3 (quiet_world [(1, peer ''A'' 5001), (2, peer ''B'' 5002)]))
     = [Acquire, RegRead, Release]"
  using unregister_idempotent [of 1 "quiet_world [(1, peer ''A'' 5001), (2, peer ''B'' 5002)]"]
    unregister_idempotent [of 3 "quiet_world [(1, peer ''A'' 5001), (2, peer ''B'' 5002)]"]
  by (simp add: unregister_clients quiet_world_def AList.delete_eq)

text \<open>
  C9, as the code has it. Along every run of a handler the lock is taken only when free and
  released only when held, it is free at the end, and while it is held the handler does
  nothing but access the dictionary and, in the \<^verbatim>\<open>finally\<close> block, write one
  informational log line: no \<^verbatim>\<open>sendall\<close>, \<^verbatim>\<open>recv\<close>, \<^verbatim>\<open>close\<close> or file write
  happens under the lock. Inside the loop (registering, the snapshot for a broadcast, the
  names for LIST) the critical sections hold accesses to the dictionary only.
\<close>

theorem lock_never_held_across_io:
  "lock_run registry_access_or_info False (events_since w (handle_client conn addr w)) = Some False
   \<and> lock_run registry_access False
        (events_since w (snd (handle_loop conn addr name w))) = Some False"
proof -
  from handle_client_events [of w conn addr] obtain pre del where
    ev: "events_since w (handle_client conn addr w)
           = pre @ [Acquire, RegRead] @ del @ [Release, Close conn, Log INFO]"
    and op: "orderly pre" and del: "del = [] \<or> del = [RegRead, Log INFO, RegDelete conn]"
    by blast
  from op have "lock_run registry_access False pre = Some False" by (simp add: orderly_def)
  then have "lock_run registry_access_or_info False pre = Some False"
    by (rule lock_run_weaken [rotated]) (simp add: registry_access_or_info_def)
  with del have a: "lock_run registry_access_or_info False (events_since w (handle_client conn addr w))
      = Some False"
    unfolding ev by (auto simp: lock_run_append registry_access_or_info_def)
  from handle_loop_ok [of w conn addr name] obtain evs where
    "trace (snd (handle_loop conn addr name w)) = trace w @ evs" "orderly evs"
    unfolding step_ok_def by blast
  then have "lock_run registry_access False
        (events_since w (snd (handle_loop conn addr name w))) = Some False"
    by (simp add: orderly_def)
  with a show ?thesis by blast
qed

text \<open>
  A DISCONNECT with sequence number 9: the ACK is written before the lock is taken, the
  socket is closed after it is released, and the log line sits inside the critical section.
\<close>

theorem lock_never_held_across_io_witness:
  "events_since (feed 1 [Seg [1, 6, 0, 9, 0, 0, 0, 0]] (quiet_world pair2))
     (handle_client 1 (lit ''10.0.0.1'', 5001) (feed 1 [Seg [1, 6, 0, 9, 0, 0, 0, 0]] (quiet_world pair2)))
     = [Log INFO, Recv 1 8, Log INFO, Log INFO, Send 1 ([1, 5, 0, 9, 0, 0, 0, 3] @ bytes_lit ''BYE'') True,
        Acquire, RegRead, RegRead, Log INFO, RegDelete 1, Release, Close 1, Log INFO]
   \<and> lock_run registry_access_or_info False
        [Log INFO, Recv 1 8, Log INFO, Log INFO, Send 1 ([1, 5, 0, 9, 0, 0, 0, 3] @ bytes_lit ''BYE'') True,
         Acquire, RegRead, RegRead, Log INFO, RegDelete 1, Release, Close 1, Log INFO] = Some False
   \<and> lock_run registry_access False
        (events_since session1 (snd (handle_loop 1 (lit ''10.0.0.1'', 5001) None session1))) = Some False"
proof -
  let ?w = "feed 1 [Seg [1, 6, 0, 9, 0, 0, 0, 0]] (quiet_world pair2)"
  have ev: "events_since ?w (handle_client 1 (lit ''10.0.0.1'', 5001) ?w)
     = [Log INFO, Recv 1 8, Log INFO, Log INFO, Send 1 ([1, 5, 0, 9, 0, 0, 0, 3] @ bytes_lit ''BYE'') True,
        Acquire, RegRead, RegRead, Log INFO, RegDelete 1, Release, Close 1, Log INFO]"
    by (simp add: run_simps step_simps client_simps text_simps pair2_def)
  from lock_never_held_across_io [of ?w 1 "(lit ''10.0.0.1'', 5001)"]
    lock_never_held_across_io [of session1 1 "(lit ''10.0.0.1'', 5001)" None]
  show ?thesis unfolding ev by simp
qed

text \<open>
  The claim as stated fails in the \<^verbatim>\<open>finally\<close> block. A stored connection whose stream
  ends is removed under the lock, and the line that logs the removal is written while the
  lock is held: the critical section holds more than accesses to the dictionary.
\<close>

theorem log_inside_lock_counterexample:
  "events_since (quiet_world pair2) (handle_client 1 (lit ''10.0.0.1'', 5001) (quiet_world pair2))
     = [Log INFO, Recv 1 8, Log INFO, Acquire, RegRead, RegRead, Log INFO, RegDelete 1, Release,
        Close 1, Log INFO]
   \<and> lock_run registry_access False
        (events_since (quiet_world pair2) (handle_client 1 (lit ''10.0.0.1'', 5001) (quiet_world pair2)))
      = None"
  by (simp add: run_simps step_simps client_simps text_simps pair2_def)

text \<open>
  C10. Every \<^verbatim>\<open>sendall\<close> of a handler, to its own connection or to a peer, carries one
  whole frame: a header whose length field is the number of bytes that follow it in the
  same call.
\<close>

theorem server_frames_well_formed:
  "list_all wf_frame (map snd (sends_of (events_since w (handle_client conn addr w))))"
proof -
  from handle_client_events [of w conn addr] obtain pre del where
    ev: "events_since w (handle_client conn addr w)
           = pre @ [Acquire, RegRead] @ del @ [Release, Close conn, Log INFO]"
    and op: "orderly pre" and del: "del = [] \<or> del = [RegRead, Log INFO, RegDelete conn]"
    by blast
  from del have "sends_of (events_since w (handle_client conn addr w)) = sends_of pre"
    unfolding ev by auto
  with op show ?thesis by (simp add: orderly_def)
qed

text \<open>
  One session: a peer connects as \<^verbatim>\<open>A\<close> beside two others (the socket of the third
  refuses writes), sends a message, asks for the list, sends three bytes of a file and
  disconnects. The seven frames written are all whole.
\<close>

theorem server_frames_well_formed_witness:
  "map snd (sends_of (events_since session1 (handle_client 1 (lit ''10.0.0.1'', 5001) session1)))
     = [[1, 5, 0, 1, 0, 0, 0, 9] @ bytes_lit ''CONNECTED'',
        [1, 2, 0, 2, 0, 0, 0, 2, 104, 105],
        [1, 2, 0, 2, 0, 0, 0, 2, 104, 105],
        [1, 5, 0, 2, 0, 0, 0, 12] @ bytes_lit ''MSG_RECEIVED'',
        [1, 3, 0, 3, 0, 0, 0, 5] @ bytes_lit ''B;C;A'',
        [1, 5, 0, 4, 0, 0, 0, 37] @ bytes_lit ''FILE_SAVED:recv_file_1700000000_4.bin'',
        [1, 5, 0, 5, 0, 0, 0, 3] @ bytes_lit ''BYE'']
   \<and> list_all wf_frame
       [[1, 5, 0, 1, 0, 0, 0, 9] @ bytes_lit ''CONNECTED'',
        [1, 2, 0, 2, 0, 0, 0, 2, 104, 105],
        [1, 2, 0, 2, 0, 0, 0, 2, 104, 105],
        [1, 5, 0, 2, 0, 0, 0, 12] @ bytes_lit ''MSG_RECEIVED'',
        [1, 3, 0, 3, 0, 0, 0, 5] @ bytes_lit ''B;C;A'',
        [1, 5, 0, 4, 0, 0, 0, 37] @ bytes_lit ''FILE_SAVED:recv_file_1700000000_4.bin'',
        [1, 5, 0, 5, 0, 0, 0, 3] @ bytes_lit ''BYE'']"
proof -
  have ev: "map snd (sends_of (events_since session1 (handle_client 1 (lit ''10.0.0.1'', 5001) session1)))
     = [[1, 5, 0, 1, 0, 0, 0, 9] @ bytes_lit ''CONNECTED'',
        [1, 2, 0, 2, 0, 0, 0, 2, 104, 105],
        [1, 2, 0, 2, 0, 0, 0, 2, 104, 105],
        [1, 5, 0, 2, 0, 0, 0, 12] @ bytes_lit ''MSG_RECEIVED'',
        [1, 3, 0, 3, 0, 0, 0, 5] @ bytes_lit ''B;C;A'',
        [1, 5, 0, 4, 0, 0, 0, 37] @ bytes_lit ''FILE_SAVED:recv_file_1700000000_4.bin'',
        [1, 5, 0, 5, 0, 0, 0, 3] @ bytes_lit ''BYE'']"
    by (simp add: run_simps step_simps client_simps text_simps session1_def)
  from server_frames_well_formed [of session1 1 "(lit ''10.0.0.1'', 5001)"]
  show ?thesis unfolding ev by simp
qed

end
